theory Spec2Isabelle
  imports Main "HOL-Library.Char_ord" "HOL-Library.List_Lexorder"
begin

section \<open>Strings and dynamically typed values\<close>

text \<open>
  Go strings are byte strings; they are modelled as \<open>string\<close> (lists of 8-bit characters),
  ordered bytewise and lexicographically as Go's \<open><\<close> on strings does.  A value of type
  \<open>any\<close> is a tagged value; \<open>VNil\<close> is the nil interface value and \<open>VOther\<close> stands for a
  value of any further dynamic type that can be printed, and carries the text \<open>fmt\<close>
  prints for it.  Channels and functions, which the template package refuses to print, are
  not among the values.
\<close>

datatype gvalue = VNil | VBool bool | VInt int | VString string | VOther string

text \<open>
  A \<open>map[string]any\<close> is an association list in insertion order, looked up with \<open>map_of\<close>;
  a map-typed struct field may be nil, hence \<open>gmap option\<close>.
\<close>

type_synonym gmap = "(string \<times> gvalue) list"

text \<open>An \<open>error\<close> value is represented by the text its \<open>Error()\<close> method returns; nil is \<open>None\<close>.\<close>

type_synonym gerror = string

definition newline :: char where
  "newline = CHR 0x0A"

definition AllowInstrumentation :: string where
  "AllowInstrumentation = ''AllowInstrumentation''"

text \<open>\<open>strings.Index\<close>: the byte index of the first occurrence of \<open>sub\<close>, or \<open>-1\<close>.\<close>

fun Index :: "string \<Rightarrow> string \<Rightarrow> int" where
  "Index [] sub = (if sub = [] then 0 else - 1)"
| "Index (c # s) sub =
     (if take (length sub) (c # s) = sub then 0
      else (let i = Index s sub in if i = - 1 then - 1 else i + 1))"

text \<open>\<open>strings.Join\<close>.\<close>

fun Join :: "string list \<Rightarrow> string \<Rightarrow> string" where
  "Join [] sep = []"
| "Join [a] sep = a"
| "Join (a # b # as) sep = a @ sep @ Join (b # as) sep"

text \<open>Decimal rendering of integers, as \<open>fmt\<close> prints them.\<close>

function show_nat :: "nat \<Rightarrow> string" where
  "show_nat n =
     (if n < 10 then [''0123456789'' ! n]
      else show_nat (n div 10) @ [''0123456789'' ! (n mod 10)])"
  by pat_completeness auto
termination
  by (relation "measure id") auto

declare show_nat.simps [simp del]

definition show_int :: "int \<Rightarrow> string" where
  "show_int i = (if i < 0 then CHR ''-'' # show_nat (nat (- i)) else show_nat (nat i))"

text \<open>What a template prints for a value of type \<open>any\<close> (through \<open>fmt.Fprint\<close>).\<close>

fun show_value :: "gvalue \<Rightarrow> string" where
  "show_value VNil = ''<no value>''"
| "show_value (VBool b) = (if b then ''true'' else ''false'')"
| "show_value (VInt i) = show_int i"
| "show_value (VString s) = s"
| "show_value (VOther s) = s"

section \<open>Log entries and the entry store\<close>

record 't LogEntry =
  Time :: 't
  Err :: "gerror option"
  Caller :: "gmap option"
  Context :: "gmap option"

text \<open>
  What a recording call observes of its surroundings: the clock \<open>Now()\<close> and the result of
  \<open>runtime.Caller(2)\<close> (file and line when \<open>ok\<close>, \<open>None\<close> otherwise).
\<close>

record 't callenv =
  now :: 't
  caller :: "(string \<times> int) option"

definition createLogEntry :: "'t callenv \<Rightarrow> gerror option \<Rightarrow> 't LogEntry" where
  "createLogEntry env err =
     (let le = \<lparr>Time = now env, Err = err, Caller = None, Context = None\<rparr>
      in case caller env of
           None \<Rightarrow> le
         | Some (file, line) \<Rightarrow>
             (let idx = Index file ''/pkg/'';
                  idx = (if idx = - 1 then 0 else idx)
              in le\<lparr>Caller := Some [(''FILE'', VString (drop (nat idx) file)),
                                     (''LINE'', VInt line)]\<rparr>))"

text \<open>
  The store is the slice \<open>LogEntries\<close>; \<open>Add\<close> and \<open>AddWithContext\<close> append under the mutex,
  so calls are serialised and each is a function from the store to the store.
\<close>

definition Add :: "'t callenv \<Rightarrow> gerror option \<Rightarrow> 't LogEntry list \<Rightarrow> 't LogEntry list" where
  "Add env err l = l @ [createLogEntry env err]"

definition AddWithContext ::
  "'t callenv \<Rightarrow> gerror option \<Rightarrow> gmap option \<Rightarrow> 't LogEntry list \<Rightarrow> 't LogEntry list" where
  "AddWithContext env err ctx l =
     (let le = createLogEntry env err;
          le = le\<lparr>Context := ctx\<rparr>
      in l @ [le])"

text \<open>A recording call with its arguments and what it observed.\<close>

datatype 't call =
    CallAdd "'t callenv" "gerror option"
  | CallAddWithContext "'t callenv" "gerror option" "gmap option"

fun do_call :: "'t call \<Rightarrow> 't LogEntry list \<Rightarrow> 't LogEntry list" where
  "do_call (CallAdd env err) l = Add env err l"
| "do_call (CallAddWithContext env err ctx) l = AddWithContext env err ctx l"

fun do_calls :: "'t call list \<Rightarrow> 't LogEntry list \<Rightarrow> 't LogEntry list" where
  "do_calls [] l = l"
| "do_calls (c # cs) l = do_calls cs (do_call c l)"

fun call_err :: "'t call \<Rightarrow> gerror option" where
  "call_err (CallAdd env err) = err"
| "call_err (CallAddWithContext env err ctx) = err"

fun call_entry :: "'t call \<Rightarrow> 't LogEntry" where
  "call_entry (CallAdd env err) = createLogEntry env err"
| "call_entry (CallAddWithContext env err ctx) = (createLogEntry env err)\<lparr>Context := ctx\<rparr>"

section \<open>The telemetry forwarder\<close>

text \<open>
  The crash-reporting client is an external collaborator: the model records the calls made
  to it, in order.  A breadcrumb's \<open>Timestamp\<close> is \<open>None\<close> when the field is left at its
  zero value.
\<close>

record 't Breadcrumb =
  Category :: string
  Data :: "gmap option"
  Message :: string
  Timestamp :: "'t option"
  Type :: string

datatype 't sentry_call =
    AddBreadcrumb "'t Breadcrumb"
  | CaptureException "gerror option"

datatype panic = IndexOutOfRange

text \<open>\<open>filepath.Base\<close> with \<open>/\<close> as the separator.\<close>

definition Base :: "string \<Rightarrow> string" where
  "Base path =
     (if path = [] then ''.''
      else (let p = rev (dropWhile (\<lambda>c. c = CHR ''/'') (rev path));
                p = rev (takeWhile (\<lambda>c. c \<noteq> CHR ''/'') (rev p))
            in if p = [] then ''/'' else p))"

text \<open>\<open>strings.Split(name, sep)[0]\<close> for a non-empty separator.\<close>

definition Split_first :: "string \<Rightarrow> string \<Rightarrow> string" where
  "Split_first name sep = (let i = Index name sep in if i = - 1 then name else take (nat i) name)"

text \<open>A lookup in a possibly nil map: the \<open>v, ok := m[k]\<close> form.\<close>

fun lookup :: "gmap option \<Rightarrow> string \<Rightarrow> gvalue option" where
  "lookup None k = None"
| "lookup (Some m) k = map_of m k"

text \<open>
  The three \<open>continue\<close> branches at the head of the loop body of \<open>instrument\<close>: the entry is
  skipped when the context is nil, when the key is absent, and when the value is a boolean
  and false (\<open>ok && !allow\<close>).
\<close>

definition skipped :: "'t LogEntry \<Rightarrow> bool" where
  "skipped entry =
     (case Context entry of
        None \<Rightarrow> True
      | Some m \<Rightarrow>
          (case map_of m ''AllowInstrumentation'' of
             None \<Rightarrow> True
           | Some si \<Rightarrow> (case si of VBool allow \<Rightarrow> \<not> allow | _ \<Rightarrow> False)))"

text \<open>The rest of the loop body: the breadcrumb built for an entry that is not skipped.\<close>

definition entry_breadcrumb :: "'t LogEntry \<Rightarrow> 't Breadcrumb" where
  "entry_breadcrumb entry =
     (let file = (case lookup (Caller entry) ''FILE'' of
                    Some (VString f) \<Rightarrow> f
                  | _ \<Rightarrow> []);
          line = (case lookup (Caller entry) ''LINE'' of
                    Some (VInt n) \<Rightarrow> n
                  | _ \<Rightarrow> 0);
          err = (case Err entry of None \<Rightarrow> ''unknown'' | Some e \<Rightarrow> e);
          b = \<lparr>Category = [],
               Data = Context entry,
               Message = err @ '' (file: '' @ file @ '', line: '' @ show_int line @ '')'',
               Timestamp = Some (Time entry),
               Type = ''error''\<rparr>
      in if file \<noteq> [] then b\<lparr>Category := Split_first (Base file) ''.go''\<rparr> else b)"

fun instrument_loop :: "'t LogEntry list \<Rightarrow> 't sentry_call list \<Rightarrow> 't sentry_call list" where
  "instrument_loop [] s = s"
| "instrument_loop (entry # l) s =
     (if skipped entry then instrument_loop l s
      else instrument_loop l (s @ [AddBreadcrumb (entry_breadcrumb entry)]))"

text \<open>
  \<open>instrument\<close> takes and returns the calls received by the client so far.  The final
  \<open>l[len(l)-1]\<close> is an index expression without a guard: on an empty slice it panics, after
  the command breadcrumb has been sent.
\<close>

definition instrument ::
  "'t LogEntry list \<Rightarrow> string \<Rightarrow> 't sentry_call list \<Rightarrow> (panic \<times> 't sentry_call list) + 't sentry_call list" where
  "instrument l cmd s =
     (let s = s @ [AddBreadcrumb \<lparr>Category = ''input'', Data = None, Message = cmd,
                                   Timestamp = None, Type = ''info''\<rparr>];
          s = instrument_loop l s
      in if length l = 0 then Inl (IndexOutOfRange, s)
         else Inr (s @ [CaptureException (Err (l ! (length l - 1)))]))"

section \<open>Persisting the entries\<close>

text \<open>
  The world outside the process: the files (path to contents), the number of bytes the
  file system still accepts before a write fails (\<open>None\<close>: no limit; a file that is
  truncated gives its bytes back), and the calls the crash-reporting client has received.
\<close>

record 't world =
  files :: "string \<Rightarrow> string option"
  quota :: "nat option"
  sentry :: "'t sentry_call list"

text \<open>
  The surroundings of one \<open>Persist\<close> call: how a timestamp prints (\<open>Time.String\<close>), the
  package variable \<open>FileRotationSize\<close>, and which of the system calls fail.
\<close>

record 't sysenv =
  time_String :: "'t \<Rightarrow> string"
  FileRotationSize :: int
  open_fails :: bool
  stat_fails :: bool
  close_fails :: bool
  create_fails :: bool

text \<open>The initial value of \<open>FileRotationSize\<close>.\<close>

definition default_FileRotationSize :: int where
  "default_FileRotationSize = 5242880"

datatype oserror = OpenError | CloseError | CreateError | WriteError

text \<open>\<open>Wrapped e\<close> is \<open>fmt.Errorf("error accessing audit log file: %w", e)\<close>.\<close>

datatype error = Wrapped oserror | Plain oserror

text \<open>
  \<open>f.Write\<close> on the open log file: the bytes go to the end of the file, as many as the
  quota allows; the call fails when not all could be written.
\<close>

definition Write :: "string \<Rightarrow> string \<Rightarrow> 't world \<Rightarrow> error option \<times> 't world" where
  "Write path bytes w =
     (let old = (case files w path of None \<Rightarrow> [] | Some c \<Rightarrow> c)
      in case quota w of
           None \<Rightarrow> (None, w\<lparr>files := (files w)(path \<mapsto> old @ bytes)\<rparr>)
         | Some q \<Rightarrow>
             (if length bytes \<le> q
              then (None, w\<lparr>files := (files w)(path \<mapsto> old @ bytes), quota := Some (q - length bytes)\<rparr>)
              else (Some (Plain WriteError),
                    w\<lparr>files := (files w)(path \<mapsto> old @ take q bytes), quota := Some 0\<rparr>)))"

text \<open>
  \<open>range\<close> over a map in \<open>text/template\<close> visits the keys in sorted order, each key once.
\<close>

definition range_map :: "gmap option \<Rightarrow> (string \<times> gvalue) list" where
  "range_map m =
     (case m of
        None \<Rightarrow> []
      | Some kvs \<Rightarrow> map (\<lambda>k. (k, the (map_of kvs k))) (sort (remdups (map fst kvs))))"

text \<open>The template \<open>record\<close> executed on one entry.\<close>

definition show_err :: "gerror option \<Rightarrow> string" where
  "show_err e = (case e of None \<Rightarrow> ''<nil>'' | Some m \<Rightarrow> m)"

definition caller_lines :: "string \<times> gvalue \<Rightarrow> string" where
  "caller_lines kv = [newline] @ fst kv @ '':'' @ [newline] @ show_value (snd kv) @ [newline]"

definition context_lines :: "string \<times> gvalue \<Rightarrow> string" where
  "context_lines kv = [newline] @ ''  '' @ fst kv @ '': '' @ show_value (snd kv) @ [newline]"

definition render_record :: "'t sysenv \<Rightarrow> 't LogEntry \<Rightarrow> string" where
  "render_record env entry =
     ''TIMESTAMP:'' @ [newline] @ time_String env (Time entry) @ [newline, newline]
     @ ''ERROR:'' @ [newline] @ show_err (Err entry) @ [newline]
     @ concat (map caller_lines (range_map (Caller entry))) @ [newline]
     @ concat (map context_lines (range_map (Context entry))) @ [newline]"

text \<open>The loop over the entries: \<open>t.Execute(f, entry)\<close>, returning at the first error.\<close>

fun write_entries ::
  "'t sysenv \<Rightarrow> string \<Rightarrow> 't LogEntry list \<Rightarrow> 't world \<Rightarrow> error option \<times> 't world" where
  "write_entries env path [] w = (None, w)"
| "write_entries env path (entry # l) w =
     (case Write path (render_record env entry) w of
        (Some e, w') \<Rightarrow> (Some e, w')
      | (None, w') \<Rightarrow> write_entries env path l w')"

definition separator :: string where
  "separator = ''------------------------------'' @ [newline, newline]"

text \<open>
  \<open>Persist\<close>.  The result is a panic, or the returned \<open>error\<close> (\<open>None\<close> for nil), with the
  world as the call leaves it.  \<open>os.OpenFile\<close> with \<open>O_CREATE\<close> creates a missing file
  empty; \<open>os.Create\<close> truncates it, which frees the room its contents took.
\<close>

definition Persist ::
  "'t sysenv \<Rightarrow> 't LogEntry list \<Rightarrow> string \<Rightarrow> string list \<Rightarrow> 't world
     \<Rightarrow> (panic + error option) \<times> 't world" where
  "Persist env l logPath args w =
     (if length l = 0 then (Inr None, w)
      else
        (let cmd = ''fastly '' @ Join args '' ''
         in case instrument l cmd (sentry w) of
              Inl (p, s) \<Rightarrow> (Inl p, w\<lparr>sentry := s\<rparr>)
            | Inr s \<Rightarrow>
                (let w = w\<lparr>sentry := s\<rparr>
                 in if open_fails env then (Inr (Some (Wrapped OpenError)), w)
                    else
                      (let old = (case files w logPath of None \<Rightarrow> [] | Some c \<Rightarrow> c);
                           w = w\<lparr>files := (files w)(logPath \<mapsto> old)\<rparr>;
                           rotate = (\<not> stat_fails env \<and> int (length old) \<ge> FileRotationSize env)
                       in if rotate \<and> close_fails env then (Inr (Some (Plain CloseError)), w)
                          else if rotate \<and> create_fails env then (Inr (Some (Wrapped CreateError)), w)
                          else
                            (let w = (if rotate
                                      then w\<lparr>files := (files w)(logPath \<mapsto> []),
                                             quota := map_option (\<lambda>q. q + length old) (quota w)\<rparr>
                                      else w);
                                 cmd = [newline] @ ''COMMAND:'' @ [newline] @ cmd @ [newline, newline]
                             in case Write logPath cmd w of
                                  (Some e, w) \<Rightarrow> (Inr (Some e), w)
                                | (None, w) \<Rightarrow>
                                    (case write_entries env logPath l w of
                                       (Some e, w) \<Rightarrow> (Inr (Some e), w)
                                     | (None, w) \<Rightarrow>
                                         (case Write logPath separator w of
                                            (Some e, w) \<Rightarrow> (Inr (Some e), w)
                                          | (None, w) \<Rightarrow> (Inr None, w))))))))"

section \<open>Regular expressions\<close>

text \<open>
  The package \<open>regexp\<close> is a library; what the two expressions of this package use of it
  is modelled here.  A regular expression is a term; matching is backtracking with the
  priorities of the library (leftmost first: the first alternative before the second, a
  repetition as long as possible before shorter ones, an optional part present before
  absent).  Groups carry the number of their opening parenthesis.
\<close>

datatype regex =
    Chars "char \<Rightarrow> bool"
  | Str string
  | Cat regex regex
  | Alt regex regex
  | Opt regex
  | Star regex
  | Group nat regex

definition Plus :: "regex \<Rightarrow> regex" where
  "Plus r = Cat r (Star r)"

type_synonym captures = "(nat \<times> string) list"

text \<open>
  \<open>matches r s\<close>: every way in which \<open>r\<close> matches a prefix of \<open>s\<close>, in order of priority,
  each with the text of the groups that took part and the rest of \<open>s\<close>.  An iteration of a
  repetition that consumes nothing is not repeated.
\<close>

fun matches :: "regex \<Rightarrow> string \<Rightarrow> (captures \<times> string) list" where
  "matches (Chars P) s = (case s of [] \<Rightarrow> [] | c # cs \<Rightarrow> if P c then [([], cs)] else [])"
| "matches (Str t) s = (if take (length t) s = t then [([], drop (length t) s)] else [])"
| "matches (Cat r1 r2) s =
     concat (map (\<lambda>m1. map (\<lambda>m2. (fst m1 @ fst m2, snd m2)) (matches r2 (snd m1))) (matches r1 s))"
| "matches (Alt r1 r2) s = matches r1 s @ matches r2 s"
| "matches (Opt r) s = matches r s @ [([], s)]"
| "matches (Star r) s =
     concat (map (\<lambda>m1. if length (snd m1) < length s
                        then map (\<lambda>m2. (fst m1 @ fst m2, snd m2)) (matches (Star r) (snd m1))
                        else [])
                 (matches r s))
     @ [([], s)]"
| "matches (Group n r) s =
     map (\<lambda>m. ((n, take (length s - length (snd m)) s) # fst m, snd m)) (matches r s)"

text \<open>
  The leftmost match at or after the start of \<open>s\<close>: the text before it, its groups (group
  0 is the whole match) and the text after it.
\<close>

fun find_first :: "regex \<Rightarrow> string \<Rightarrow> (string \<times> captures \<times> string) option" where
  "find_first r [] =
     (case matches r [] of
        [] \<Rightarrow> None
      | m # _ \<Rightarrow> Some ([], (0, []) # fst m, snd m))"
| "find_first r (x # xs) =
     (case matches r (x # xs) of
        [] \<Rightarrow> map_option (\<lambda>(pre, caps, rest). (x # pre, caps, rest)) (find_first r xs)
      | m # _ \<Rightarrow> Some ([], (0, take (length (x # xs) - length (snd m)) (x # xs)) # fst m, snd m))"

text \<open>
  A replacement template, parsed: literal text and references \<open>${n}\<close> to groups.  A group
  that took no part in the match expands to nothing.
\<close>

datatype template_part = Text string | Ref nat

fun expand :: "template_part list \<Rightarrow> captures \<Rightarrow> string" where
  "expand [] caps = []"
| "expand (Text t # ps) caps = t @ expand ps caps"
| "expand (Ref n # ps) caps = (case map_of caps n of None \<Rightarrow> [] | Some t \<Rightarrow> t) @ expand ps caps"

text \<open>
  \<open>ReplaceAllString\<close>: the matches are found from left to right, each search starting
  where the last match ended; the text between matches is copied.  A match of the empty
  string is not replaced when it lies where the last match ended, and after it the search
  moves on by one byte.  \<open>after\<close> says that a match ended where \<open>src\<close> starts.
\<close>

function replace_all :: "regex \<Rightarrow> template_part list \<Rightarrow> bool \<Rightarrow> string \<Rightarrow> string" where
  "replace_all re repl after src =
     (case find_first re src of
        None \<Rightarrow> src
      | Some (pre, caps, rest) \<Rightarrow>
          (if map_of caps 0 \<noteq> Some [] \<and> length rest < length src
           then pre @ expand repl caps @ replace_all re repl True rest
           else pre @ (if after \<and> pre = [] then [] else expand repl caps)
                @ (case rest of
                     [] \<Rightarrow> []
                   | x # xs \<Rightarrow>
                       x # (if length xs < length src then replace_all re repl False xs else xs))))"
  by pat_completeness auto
termination
  by (relation "measure (\<lambda>(re, repl, after, src). length src)") auto

definition ReplaceAllString :: "regex \<Rightarrow> string \<Rightarrow> template_part list \<Rightarrow> string" where
  "ReplaceAllString re src repl = replace_all re repl False src"

section \<open>Redaction\<close>

text \<open>The character classes \<open>\<^verbatim>\<open>\w\<close>\<close>, \<open>\<^verbatim>\<open>[\w-]\<close>\<close>, \<open>\<^verbatim>\<open>\s\<close>\<close> and \<open>\<^verbatim>\<open>['"]\<close>\<close> of the library's syntax.\<close>

definition word_char :: "char \<Rightarrow> bool" where
  "word_char c =
     ((CHR ''0'' \<le> c \<and> c \<le> CHR ''9'') \<or> (CHR ''A'' \<le> c \<and> c \<le> CHR ''Z'') \<or> c = CHR ''_''
      \<or> (CHR ''a'' \<le> c \<and> c \<le> CHR ''z''))"

definition token_char :: "char \<Rightarrow> bool" where
  "token_char c = (word_char c \<or> c = CHR ''-'')"

definition space_char :: "char \<Rightarrow> bool" where
  "space_char c = (c = CHR 0x09 \<or> c = CHR 0x0A \<or> c = CHR 0x0C \<or> c = CHR 0x0D \<or> c = CHR '' '')"

definition quote_char :: "char \<Rightarrow> bool" where
  "quote_char c = (c = CHR 0x27 \<or> c = CHR 0x22)"

text \<open>\<open>TokenRegEx\<close> is \<^verbatim>\<open>Token ([\w-]+)\<close>.\<close>

definition TokenRegEx :: regex where
  "TokenRegEx = Cat (Str ''Token '') (Group 1 (Plus (Chars token_char)))"

text \<open>\<open>TokenFlagRegEx\<close> is \<^verbatim>\<open>(-t|--token)(\s*=?\s*['"]?)([\w-]+)(['"]?)\<close>.\<close>

definition TokenFlagRegEx :: regex where
  "TokenFlagRegEx =
     Cat (Group 1 (Alt (Str ''-t'') (Str ''--token'')))
    (Cat (Group 2 (Cat (Star (Chars space_char))
                  (Cat (Opt (Str ''=''))
                  (Cat (Star (Chars space_char))
                       (Opt (Chars quote_char))))))
    (Cat (Group 3 (Plus (Chars token_char)))
         (Group 4 (Opt (Chars quote_char)))))"

text \<open>\<open>FilterToken\<close>, with the templates \<^verbatim>\<open>Token REDACTED\<close> and \<^verbatim>\<open>${1}${2}REDACTED${4}\<close>.\<close>

definition FilterToken :: "string \<Rightarrow> string" where
  "FilterToken input =
     (let inputFiltered = ReplaceAllString TokenRegEx input [Text ''Token REDACTED''];
          inputFiltered = ReplaceAllString TokenFlagRegEx inputFiltered
                            [Ref 1, Ref 2, Text ''REDACTED'', Ref 4]
      in inputFiltered)"


section \<open>Redaction as two scans\<close>

text \<open>
  The two passes written as scans from left to right.  A scan looks at the text from its
  first character: where the pattern of the pass stands, the occurrence is rewritten and
  the scan goes on behind the text of the occurrence; elsewhere one character is copied.
  An occurrence of the pattern that begins inside the text of an earlier occurrence is
  therefore not rewritten.  \<open>starts P s\<close>: \<open>s\<close> begins with a character of the class \<open>P\<close>;
  \<open>skip1 P s\<close>: \<open>s\<close> without its first character when that is of the class \<open>P\<close>.
\<close>

definition starts :: "(char \<Rightarrow> bool) \<Rightarrow> string \<Rightarrow> bool" where
  "starts P s = (case s of [] \<Rightarrow> False | c # _ \<Rightarrow> P c)"

definition skip1 :: "(char \<Rightarrow> bool) \<Rightarrow> string \<Rightarrow> string" where
  "skip1 P s = (case s of [] \<Rightarrow> [] | c # r \<Rightarrow> if P c then r else c # r)"

text \<open>
  First pass: \<open>Token\<close>, one space and a token-shaped value (a longest run of letters, digits,
  underscores and hyphens) become \<open>Token REDACTED\<close>, and the scan goes on behind the value.
\<close>

definition token_at :: "string \<Rightarrow> bool" where
  "token_at s = (take 6 s = ''Token '' \<and> starts token_char (drop 6 s))"

function redact_token_words :: "string \<Rightarrow> string" where
  "redact_token_words [] = []"
| "redact_token_words (c # s) =
     (if token_at (c # s)
      then ''Token REDACTED'' @ redact_token_words (dropWhile token_char (drop 6 (c # s)))
      else c # redact_token_words s)"
  by pat_completeness auto
termination
proof (relation "measure length")
  fix c :: char and s :: string
  have "length (dropWhile token_char (drop 5 s)) \<le> length (drop 5 s)"
    by (rule length_dropWhile_le)
  then show "(dropWhile token_char (drop 6 (c # s)), c # s) \<in> measure length"
    by simp
qed simp_all

text \<open>
  Second pass: after a flag \<open>-t\<close> or \<open>--token\<close>, spaces, an equals sign, spaces and an opening
  quote are passed over, each if present; the value that follows is replaced, a quote
  right after it is kept, and the scan goes on behind that quote.
\<close>

definition flag_of :: "string \<Rightarrow> string" where
  "flag_of s =
     (if take 2 s = ''-t'' then ''-t'' else if take 7 s = ''--token'' then ''--token'' else [])"

definition after_separator :: "string \<Rightarrow> string" where
  "after_separator s =
     skip1 quote_char (dropWhile space_char (skip1 (\<lambda>c. c = CHR ''='') (dropWhile space_char s)))"

definition flag_at :: "string \<Rightarrow> bool" where
  "flag_at s =
     (flag_of s \<noteq> [] \<and> starts token_char (after_separator (drop (length (flag_of s)) s)))"

function redact_flag_values :: "string \<Rightarrow> string" where
  "redact_flag_values [] = []"
| "redact_flag_values (c # s) =
     (if flag_at (c # s)
      then (let v = after_separator (drop (length (flag_of (c # s))) (c # s));
                r = dropWhile token_char v;
                r' = skip1 quote_char r
            in take (length (c # s) - length v) (c # s) @ ''REDACTED''
               @ take (length r - length r') r @ redact_flag_values r')
      else c # redact_flag_values s)"
  by pat_completeness auto
termination
proof (relation "measure length")
  fix c :: char and s v r r' :: string
  assume "flag_at (c # s)"
    and v: "v = after_separator (drop (length (flag_of (c # s))) (c # s))"
    and r: "r = dropWhile token_char v"
    and r': "r' = skip1 quote_char r"
  then have n: "length (flag_of (c # s)) \<noteq> 0"
    by (simp add: flag_at_def)
  have sk: "length (skip1 P x) \<le> length x" for P and x :: string
    by (cases x) (simp_all add: skip1_def)
  have dw: "length (dropWhile P x) \<le> length x" for P and x :: string
    by (rule length_dropWhile_le)
  have "length (after_separator x) \<le> length x" for x
    unfolding after_separator_def
    by (meson sk dw le_trans)
  then have "length r' \<le> length (drop (length (flag_of (c # s))) (c # s))"
    unfolding r' r v by (meson sk dw le_trans)
  also have "\<dots> < length (c # s)"
    using n by simp
  finally show "(r', c # s) \<in> measure length"
    by simp
qed simp_all

text \<open>
  The two-pass reference: the first scan, and the second scan on what the first gives.
\<close>

definition redact_reference :: "string \<Rightarrow> string" where
  "redact_reference s = redact_flag_values (redact_token_words s)"

text \<open>
  The first pass as the specification words it: \<open>Token\<close> followed by whitespace and a
  token-shaped value.
\<close>

definition token_ws_at :: "string \<Rightarrow> bool" where
  "token_ws_at s =
     (take 5 s = ''Token'' \<and> starts space_char (drop 5 s)
      \<and> starts token_char (dropWhile space_char (drop 5 s)))"

function redact_token_words_spec :: "string \<Rightarrow> string" where
  "redact_token_words_spec [] = []"
| "redact_token_words_spec (c # s) =
     (if token_ws_at (c # s)
      then ''Token REDACTED''
           @ redact_token_words_spec (dropWhile token_char (dropWhile space_char (drop 5 (c # s))))
      else c # redact_token_words_spec s)"
  by pat_completeness auto
termination
proof (relation "measure length")
  fix c :: char and s :: string
  have "length (dropWhile token_char (dropWhile space_char (drop 4 s))) \<le> length (drop 4 s)"
    by (meson length_dropWhile_le le_trans)
  then show "(dropWhile token_char (dropWhile space_char (drop 5 (c # s))), c # s) \<in> measure length"
    by simp
qed simp_all

definition redact_spec :: "string \<Rightarrow> string" where
  "redact_spec s = redact_flag_values (redact_token_words_spec s)"

section \<open>The results of a repetition and of an optional part\<close>

text \<open>
  What is left of \<open>s\<close> after a repetition of a character class, longest repetition first, and
  after an optional character of a class, present before absent.
\<close>

fun star_rests :: "(char \<Rightarrow> bool) \<Rightarrow> string \<Rightarrow> string list" where
  "star_rests P [] = [[]]"
| "star_rests P (c # s) = (if P c then star_rests P s @ [c # s] else [c # s])"

definition opt_rests :: "(char \<Rightarrow> bool) \<Rightarrow> string \<Rightarrow> string list" where
  "opt_rests P s = (if starts P s then [tl s, s] else [s])"

section \<open>Texts that the first pass leaves alone\<close>

text \<open>
  \<open>token_stable s\<close>: wherever \<open>Token\<close>, a space and a token character stand in \<open>s\<close>, the
  value that follows is already \<open>REDACTED\<close>.
\<close>

fun token_stable :: "string \<Rightarrow> bool" where
  "token_stable [] = True"
| "token_stable (c # s) =
     (if token_at (c # s)
      then takeWhile token_char (drop 6 (c # s)) = ''REDACTED'' \<and> token_stable s
      else token_stable s)"

section \<open>What a call to \<open>Persist\<close> is expected to leave behind\<close>

text \<open>
  The contents of a file (empty when it does not exist), the part of a byte string that a
  quota lets through, and whether it lets all of it through.
\<close>

definition content :: "'t world \<Rightarrow> string \<Rightarrow> string" where
  "content w path = (case files w path of None \<Rightarrow> [] | Some c \<Rightarrow> c)"

definition cut :: "nat option \<Rightarrow> string \<Rightarrow> string" where
  "cut q bytes = (case q of None \<Rightarrow> bytes | Some n \<Rightarrow> take n bytes)"

definition fits :: "nat option \<Rightarrow> string \<Rightarrow> bool" where
  "fits q bytes = (case q of None \<Rightarrow> True | Some n \<Rightarrow> length bytes \<le> n)"

text \<open>The header block as the code builds it, and the whole text of one call.\<close>

definition command_header :: "string list \<Rightarrow> string" where
  "command_header args =
     [newline] @ ''COMMAND:'' @ [newline] @ ''fastly '' @ Join args '' '' @ [newline, newline]"

definition persist_text :: "'t sysenv \<Rightarrow> 't LogEntry list \<Rightarrow> string list \<Rightarrow> string" where
  "persist_text env l args =
     command_header args @ concat (map (render_record env) l) @ separator"

text \<open>The condition under which \<open>Persist\<close> recreates the file.\<close>

definition rotates :: "'t sysenv \<Rightarrow> string \<Rightarrow> 't world \<Rightarrow> bool" where
  "rotates env path w = (\<not> stat_fails env \<and> FileRotationSize env \<le> int (length (content w path)))"

text \<open>
  The bytes the file system accepts from the writes of a call: the quota, and the size of
  the old contents on top of it when the file is recreated.
\<close>

definition room :: "'t sysenv \<Rightarrow> string \<Rightarrow> 't world \<Rightarrow> nat option" where
  "room env path w =
     (if rotates env path w then map_option (\<lambda>q. q + length (content w path)) (quota w)
      else quota w)"

text \<open>The command breadcrumb sent for an argument vector.\<close>

definition command_breadcrumb :: "string list \<Rightarrow> 't Breadcrumb" where
  "command_breadcrumb args =
     \<lparr>Category = ''input'', Data = None, Message = ''fastly '' @ Join args '' '',
      Timestamp = None, Type = ''info''\<rparr>"

section \<open>Example inputs\<close>

text \<open>
  Timestamps are natural numbers printed in decimal in the examples.  \<open>E1\<close> and \<open>E2\<close> are the
  entries of the end-to-end scenario; \<open>E3\<close> carries an opt-in marker that is not a boolean.
\<close>

definition env0 :: "nat sysenv" where
  "env0 = \<lparr>time_String = show_nat, FileRotationSize = default_FileRotationSize, open_fails = False,
           stat_fails = False, close_fails = False, create_fails = False\<rparr>"


definition w0 :: "nat world" where
  "w0 = \<lparr>files = Map.empty, quota = None, sentry = []\<rparr>"

definition w_old :: "string \<Rightarrow> nat world" where
  "w_old old = \<lparr>files = [''errors.log'' \<mapsto> old], quota = None, sentry = []\<rparr>"

definition E1 :: "nat LogEntry" where
  "E1 = \<lparr>Time = 1, Err = Some ''service lookup failed'',
         Caller = Some [(''FILE'', VString ''/pkg/commands/service/describe.go''), (''LINE'', VInt 42)],
         Context = Some [(''Service ID'', VString ''abc''), (''AllowInstrumentation'', VBool True)]\<rparr>"

definition E2 :: "nat LogEntry" where
  "E2 = \<lparr>Time = 2, Err = Some ''not found'', Caller = None, Context = None\<rparr>"

definition E3 :: "nat LogEntry" where
  "E3 = \<lparr>Time = 3, Err = Some ''boom'', Caller = None,
         Context = Some [(''AllowInstrumentation'', VString ''false'')]\<rparr>"

section \<open>Facts about the entry store\<close>

lemma do_call_eq: "do_call c l = l @ [call_entry c]"
  by (cases c) (simp_all add: Add_def AddWithContext_def Let_def)

lemma do_calls_eq: "do_calls cs l = l @ map call_entry cs"
  by (induction cs arbitrary: l) (simp_all add: do_call_eq)

lemma Err_call_entry: "Err (call_entry c) = call_err c"
  by (cases c) (auto simp: createLogEntry_def Let_def split: option.splits prod.splits)

section \<open>Facts about the forwarder\<close>

lemma instrument_loop_eq:
  "instrument_loop l s =
     s @ map (\<lambda>e. AddBreadcrumb (entry_breadcrumb e)) (filter (\<lambda>e. \<not> skipped e) l)"
  by (induction l arbitrary: s) auto

lemma instrument_empty:
  "instrument [] cmd s =
     Inl (IndexOutOfRange,
          s @ [AddBreadcrumb \<lparr>Category = ''input'', Data = None, Message = cmd,
                               Timestamp = None, Type = ''info''\<rparr>])"
  by (simp add: instrument_def)

lemma skipped_iff:
  "skipped entry \<longleftrightarrow>
     (case Context entry of
        None \<Rightarrow> True
      | Some m \<Rightarrow> map_of m ''AllowInstrumentation'' \<in> {None, Some (VBool False)})"
  by (auto simp: skipped_def split: option.splits gvalue.splits)

section \<open>Facts about writing\<close>

lemma Write_eq:
  "Write p b w =
     (if fits (quota w) b then None else Some (Plain WriteError),
      w\<lparr>files := (files w)(p \<mapsto> content w p @ cut (quota w) b),
        quota := map_option (\<lambda>n. n - length b) (quota w)\<rparr>)"
  by (cases "quota w") (auto simp: Write_def fits_def cut_def content_def)

lemma cut_append: "cut q (a @ b) = cut q a @ cut (map_option (\<lambda>n. n - length a) q) b"
  by (cases q) (simp_all add: cut_def)

lemma fits_append:
  "fits q (a @ b) \<longleftrightarrow> fits q a \<and> fits (map_option (\<lambda>n. n - length a) q) b"
  by (cases q) (auto simp: fits_def)

lemma not_fits_cut: "\<not> fits q a \<Longrightarrow> cut (map_option (\<lambda>n. n - length a) q) b = []"
  by (cases q) (auto simp: fits_def cut_def)

lemma fits_cut: "fits q a \<Longrightarrow> cut q a = a"
  by (cases q) (auto simp: fits_def cut_def)

lemma write_entries_eq:
  "write_entries env p l w =
     (if fits (quota w) (concat (map (render_record env) l)) then None else Some (Plain WriteError),
      if l = [] then w else
      w\<lparr>files := (files w)(p \<mapsto> content w p @ cut (quota w) (concat (map (render_record env) l))),
        quota := map_option (\<lambda>n. n - length (concat (map (render_record env) l))) (quota w)\<rparr>)"
proof (induction l arbitrary: w)
  case Nil
  show ?case by (cases "quota w") (simp_all add: fits_def)
next
  case (Cons e l)
  show ?case
  proof (cases "fits (quota w) (render_record env e)")
    case False
    then show ?thesis
      by (simp add: Write_eq fits_append cut_append not_fits_cut)
         (cases "quota w"; auto simp: fits_def)
  next
    case True
    then show ?thesis
      apply (simp add: Write_eq Cons fits_append cut_append content_def option.map_comp comp_def)
      apply (cases "quota w"; simp add: cut_def)
      done
  qed
qed


text \<open>
  \<open>Persist\<close> on a non-empty store, when the file can be opened and, where it is to be
  recreated, closed and created: the forwarder runs, then the text of the call goes to the
  file as far as the quota allows, after the old contents or in place of them.
\<close>

lemma Persist_eq:
  assumes "l \<noteq> []" "\<not> open_fails env"
    and "rotates env logPath w \<Longrightarrow> \<not> close_fails env \<and> \<not> create_fails env"
  shows "Persist env l logPath args w =
     (Inr (if fits (room env logPath w) (persist_text env l args) then None
           else Some (Plain WriteError)),
      w\<lparr>sentry := sentry w
              @ [AddBreadcrumb (command_breadcrumb args)]
              @ map (\<lambda>e. AddBreadcrumb (entry_breadcrumb e)) (filter (\<lambda>e. \<not> skipped e) l)
              @ [CaptureException (Err (last l))],
         files := (files w)(logPath \<mapsto>
                     (if rotates env logPath w then [] else content w logPath)
                     @ cut (room env logPath w) (persist_text env l args)),
         quota := map_option (\<lambda>n. n - length (persist_text env l args)) (room env logPath w)\<rparr>)"
proof -
  have last: "l ! (length l - 1) = last l"
    using assms(1) by (simp add: last_conv_nth)
  have H: "[newline] @ ''COMMAND:'' @ [newline] @ (''fastly '' @ Join args '' '') @ [newline, newline]
      = command_header args"
    by (simp add: command_header_def)
  have L: "(length l = 0) = False" using assms(1) by simp
  have O: "open_fails env = False" using assms(2) by simp
  have R: "(\<not> stat_fails env \<and> FileRotationSize env \<le> int (length (case files w logPath of None \<Rightarrow> [] | Some c \<Rightarrow> c)))
     = rotates env logPath w"
    by (simp add: rotates_def content_def)
  show ?thesis
  proof (cases "rotates env logPath w")
    case True
    then have C: "close_fails env = False" "create_fails env = False"
      using assms(3) by auto
    show ?thesis
      unfolding Persist_def Let_def H L O instrument_def instrument_loop_eq last
      by (cases "quota w")
        (auto simp add: R C True Write_eq write_entries_eq assms(1) persist_text_def
          content_def fits_def cut_def command_breadcrumb_def room_def)
  next
    case False
    show ?thesis
      unfolding Persist_def Let_def H L O instrument_def instrument_loop_eq last
      by (cases "quota w")
        (auto simp add: R False Write_eq write_entries_eq assms(1) persist_text_def
          content_def fits_def cut_def command_breadcrumb_def room_def)
  qed
qed

text \<open>The calls that give up before writing.\<close>

lemma Persist_open_fails:
  assumes "l \<noteq> []" "open_fails env"
  shows "fst (Persist env l logPath args w) = Inr (Some (Wrapped OpenError))"
    and "files (snd (Persist env l logPath args w)) = files w"
proof -
  have L: "(length l = 0) = False" using assms(1) by simp
  show "fst (Persist env l logPath args w) = Inr (Some (Wrapped OpenError))"
    unfolding Persist_def Let_def L instrument_def using assms by simp
  show "files (snd (Persist env l logPath args w)) = files w"
    unfolding Persist_def Let_def L instrument_def using assms by simp
qed



lemma Persist_no_panic: "fst (Persist env l logPath args w) \<noteq> Inl p"
  by (simp add: Persist_def instrument_def Let_def split: prod.splits option.splits)

lemma sentry_Persist:
  assumes "l \<noteq> []"
  shows "sentry (snd (Persist env l logPath args w)) =
     sentry w
     @ [AddBreadcrumb (command_breadcrumb args)]
     @ map (\<lambda>e. AddBreadcrumb (entry_breadcrumb e)) (filter (\<lambda>e. \<not> skipped e) l)
     @ [CaptureException (Err (last l))]"
proof -
  have last: "l ! (length l - 1) = last l"
    using assms(1) by (simp add: last_conv_nth)
  have L: "(length l = 0) = False" using assms(1) by simp
  show ?thesis
    unfolding Persist_def Let_def L instrument_def instrument_loop_eq last
    by (simp add: Write_eq write_entries_eq assms command_breadcrumb_def)
qed

section \<open>Facts about the order of keys in a record\<close>

lemma range_map_sorted: "sorted (map fst (range_map m)) \<and> distinct (map fst (range_map m))"
  by (cases m) (simp_all add: range_map_def comp_def)



lemma keys_range_map: "map fst (range_map (Some kvs)) = sort (remdups (map fst kvs))"
  by (simp add: range_map_def comp_def)

lemma map_of_range_map: "map_of (range_map (Some kvs)) = map_of kvs"
proof
  fix k
  have keys: "fst ` set (range_map (Some kvs)) = fst ` set kvs"
    using keys_range_map[of kvs] by (metis list.set_map set_remdups set_sort)
  show "map_of (range_map (Some kvs)) k = map_of kvs k"
  proof (cases "map_of kvs k")
    case None
    then have "k \<notin> fst ` set (range_map (Some kvs))"
      unfolding keys by (simp add: map_of_eq_None_iff)
    then have "map_of (range_map (Some kvs)) k = None"
      by (simp only: map_of_eq_None_iff not_False_eq_True)
    then show ?thesis using None by simp
  next
    case (Some v)
    then have "k \<in> fst ` set kvs"
      by (metis map_of_eq_None_iff option.distinct(1))
    then have "(k, v) \<in> set (range_map (Some kvs))"
      using Some by (auto simp: range_map_def)
    moreover have "distinct (map fst (range_map (Some kvs)))"
      using range_map_sorted by blast
    ultimately show ?thesis using Some by simp
  qed
qed


section \<open>The telemetry forwarder: which entries are forwarded\<close>

text \<open>
  C1.  The claim: an entry yields a breadcrumb exactly when its context is non-nil and holds
  \<open>AllowInstrumentation\<close> with the boolean value true; a value that is present but is not
  boolean true, of whatever type, leaves the entry out.  The constant's own comment says the
  same ("sends errors to Sentry if set to boolean true").  The loop, however, skips a
  present value only when it is a boolean and false: the entry \<open>E3\<close>, whose marker is the
  string \<open>false\<close>, is not skipped and its breadcrumb is sent.
\<close>

theorem instrument_forwards_non_boolean_marker:
  "\<not> skipped E3 \<and>
   instrument [E3] ''fastly'' [] =
     Inr [AddBreadcrumb \<lparr>Category = ''input'', Data = None, Message = ''fastly'',
                          Timestamp = None, Type = ''info''\<rparr>,
          AddBreadcrumb \<lparr>Category = [],
                          Data = Some [(''AllowInstrumentation'', VString ''false'')],
                          Message = ''boom (file: , line: 0)'',
                          Timestamp = Some 3, Type = ''error''\<rparr>,
          CaptureException (Some ''boom'')]"
  by (simp add: E3_def skipped_def instrument_def entry_breadcrumb_def show_int_def
      show_nat.simps)

section \<open>The telemetry forwarder: the captured exception\<close>

text \<open>
  C2.  \<open>Persist\<close> never panics.  On an empty store it returns at once and leaves the world
  as it was, so the forwarder is not reached and nothing is captured.  On a non-empty store
  the forwarder receives the command breadcrumb, the breadcrumbs of the entries that are
  not skipped, in order, and last of all exactly one captured exception: the error of the
  last entry.  This holds whatever happens to the file afterwards.
\<close>

theorem persist_captures_last_error:
  "fst (Persist env l logPath args w) \<noteq> Inl p \<and>
   (if l = [] then Persist env l logPath args w = (Inr None, w)
    else sentry (snd (Persist env l logPath args w)) =
           sentry w
           @ [AddBreadcrumb (command_breadcrumb args)]
           @ map (\<lambda>e. AddBreadcrumb (entry_breadcrumb e)) (filter (\<lambda>e. \<not> skipped e) l)
           @ [CaptureException (Err (last l))])"
  using Persist_no_panic[of env l logPath args w p] sentry_Persist[of l env logPath args w]
  by (simp add: Persist_def)

theorem persist_captures_last_error_witness:
  "fst (Persist env0 [E1, E2] ''errors.log'' [''service'', ''describe''] w0) \<noteq> Inl IndexOutOfRange \<and>
   sentry (snd (Persist env0 [E1, E2] ''errors.log'' [''service'', ''describe''] w0)) =
     [AddBreadcrumb (command_breadcrumb [''service'', ''describe'']),
      AddBreadcrumb (entry_breadcrumb E1),
      CaptureException (Some ''not found'')]"
  using persist_captures_last_error
    [of env0 "[E1, E2]" "''errors.log''" "[''service'', ''describe'']" w0 IndexOutOfRange]
  by (simp add: E1_def E2_def skipped_def w0_def)

section \<open>Rotation of the log file\<close>




section \<open>An empty store\<close>

text \<open>
  C4.  On an empty store \<open>Persist\<close> returns nil and leaves the world exactly as it found
  it: no file is created or changed and the forwarder receives nothing, whatever the path
  and the arguments.
\<close>

theorem persist_empty_store: "Persist env [] logPath args w = (Inr None, w)"
  by (simp add: Persist_def)

section \<open>The command header\<close>

text \<open>
  C7, as stated: the first bytes a call writes are \<open>COMMAND:\<close>, newline, the command,
  two newlines.  They are not: the code puts a newline in front of \<open>COMMAND:\<close>.  For the
  scenario's arguments on a fresh file, the first 34 bytes of the file are not the 34 bytes
  of that header.  Nor is the block written on every call: when the file system takes only
  five more bytes, the file holds a newline and \<open>COMM\<close>, and the call returns the error of
  the write; when the file cannot be opened, nothing is written.
\<close>

theorem persist_header_counterexample:
  "take 34 (content (snd (Persist env0 [E2] ''errors.log'' [''service'', ''describe''] w0)) ''errors.log'')
     \<noteq> ''COMMAND:'' @ [newline] @ ''fastly service describe'' @ [newline, newline] \<and>
   content (snd (Persist env0 [E2] ''errors.log'' [''service'', ''describe''] (w0\<lparr>quota := Some 5\<rparr>)))
       ''errors.log''
     = [newline] @ ''COMM'' \<and>
   fst (Persist env0 [E2] ''errors.log'' [''service'', ''describe''] (w0\<lparr>quota := Some 5\<rparr>))
     = Inr (Some (Plain WriteError)) \<and>
   content (snd (Persist (env0\<lparr>open_fails := True\<rparr>) [E2] ''errors.log'' [''service'', ''describe''] w0))
       ''errors.log''
     = []"
proof -
  have P: "Persist env0 [E2] ''errors.log'' [''service'', ''describe''] w =
     (Inr (if fits (room env0 ''errors.log'' w) (persist_text env0 [E2] [''service'', ''describe''])
           then None else Some (Plain WriteError)),
      w\<lparr>sentry := sentry w
              @ [AddBreadcrumb (command_breadcrumb [''service'', ''describe''])]
              @ map (\<lambda>e. AddBreadcrumb (entry_breadcrumb e)) (filter (\<lambda>e. \<not> skipped e) [E2])
              @ [CaptureException (Err (last [E2]))],
         files := (files w)(''errors.log'' \<mapsto>
                     (if rotates env0 ''errors.log'' w then [] else content w ''errors.log'')
                     @ cut (room env0 ''errors.log'' w) (persist_text env0 [E2] [''service'', ''describe''])),
         quota := map_option (\<lambda>n. n - length (persist_text env0 [E2] [''service'', ''describe'']))
                    (room env0 ''errors.log'' w)\<rparr>)" for w :: "nat world"
    by (intro Persist_eq) (simp_all add: env0_def)
  have n: "\<not> rotates env0 ''errors.log'' w0" "\<not> rotates env0 ''errors.log'' (w0\<lparr>quota := Some 5\<rparr>)"
    by (simp_all add: rotates_def content_def w0_def env0_def default_FileRotationSize_def)
  have a: "take 34 (content (snd (Persist env0 [E2] ''errors.log'' [''service'', ''describe''] w0)) ''errors.log'')
     \<noteq> ''COMMAND:'' @ [newline] @ ''fastly service describe'' @ [newline, newline]"
    unfolding P using n
    by (simp add: content_def w0_def room_def cut_def persist_text_def command_header_def
        newline_def)
  have b: "content (snd (Persist env0 [E2] ''errors.log'' [''service'', ''describe''] (w0\<lparr>quota := Some 5\<rparr>)))
       ''errors.log'' = [newline] @ ''COMM''"
    unfolding P using n
    by (simp add: content_def w0_def room_def cut_def persist_text_def command_header_def)
  have c: "fst (Persist env0 [E2] ''errors.log'' [''service'', ''describe''] (w0\<lparr>quota := Some 5\<rparr>))
     = Inr (Some (Plain WriteError))"
    unfolding P using n
    by (simp add: w0_def room_def fits_def persist_text_def command_header_def)
  have "files (snd (Persist (env0\<lparr>open_fails := True\<rparr>) [E2] ''errors.log'' [''service'', ''describe''] w0))
      = files w0"
    by (rule Persist_open_fails) simp_all
  then have d: "content (snd (Persist (env0\<lparr>open_fails := True\<rparr>) [E2] ''errors.log''
                   [''service'', ''describe''] w0)) ''errors.log'' = []"
    by (simp add: content_def w0_def)
  show ?thesis
    using a b c d by blast
qed

text \<open>
  C7, amended: on a non-empty store, when the file can be opened (and closed and recreated
  where it is rotated) and the file system takes the header block, what the call writes to
  the file begins with the header block: a newline, then \<open>COMMAND:\<close>, a newline, \<open>fastly\<close>
  and a space followed by the arguments joined by single spaces, and two newlines.  What was
  in the file before stays in front of it unless the file is rotated.  When the call returns
  nil, the records of the entries, in order, and the separator line come after the block
  and nothing else.
\<close>

theorem persist_writes_header_first:
  assumes "l \<noteq> []" and "\<not> open_fails env"
    and "rotates env logPath w \<longrightarrow> \<not> close_fails env \<and> \<not> create_fails env"
    and "fits (room env logPath w) (command_header args)"
  shows "command_header args =
           [newline] @ ''COMMAND:'' @ [newline] @ ''fastly '' @ Join args '' '' @ [newline, newline] \<and>
         take (length ((if rotates env logPath w then [] else content w logPath) @ command_header args))
              (content (snd (Persist env l logPath args w)) logPath)
           = (if rotates env logPath w then [] else content w logPath) @ command_header args \<and>
         (fst (Persist env l logPath args w) = Inr None \<longrightarrow>
            content (snd (Persist env l logPath args w)) logPath
              = (if rotates env logPath w then [] else content w logPath)
                @ command_header args @ concat (map (render_record env) l) @ separator)"
proof -
  define base where "base = (if rotates env logPath w then [] else content w logPath)"
  define rest where "rest = concat (map (render_record env) l) @ separator"
  have P: "Persist env l logPath args w =
     (Inr (if fits (room env logPath w) (persist_text env l args) then None
           else Some (Plain WriteError)),
      w\<lparr>sentry := sentry w
              @ [AddBreadcrumb (command_breadcrumb args)]
              @ map (\<lambda>e. AddBreadcrumb (entry_breadcrumb e)) (filter (\<lambda>e. \<not> skipped e) l)
              @ [CaptureException (Err (last l))],
         files := (files w)(logPath \<mapsto>
                     (if rotates env logPath w then [] else content w logPath)
                     @ cut (room env logPath w) (persist_text env l args)),
         quota := map_option (\<lambda>n. n - length (persist_text env l args)) (room env logPath w)\<rparr>)"
    using assms(1,2,3) by (intro Persist_eq) simp_all
  have C: "content (snd (Persist env l logPath args w)) logPath
      = base @ cut (room env logPath w) (command_header args @ rest)"
    unfolding P by (simp add: content_def persist_text_def base_def rest_def)
  have h: "take (length (command_header args)) (cut (room env logPath w) (command_header args @ rest))
      = command_header args"
    using assms(4) by (cases "room env logPath w") (simp_all add: fits_def cut_def)
  have 1: "take (length (base @ command_header args))
              (content (snd (Persist env l logPath args w)) logPath) = base @ command_header args"
    unfolding C using h by simp
  have 2: "content (snd (Persist env l logPath args w)) logPath = base @ command_header args @ rest"
    if "fst (Persist env l logPath args w) = Inr None"
  proof -
    have "fits (room env logPath w) (persist_text env l args)"
      using that unfolding P by (simp split: if_splits)
    then have "cut (room env logPath w) (command_header args @ rest) = command_header args @ rest"
      by (simp add: fits_cut persist_text_def rest_def)
    then show ?thesis unfolding C by simp
  qed
  have 0: "command_header args =
      [newline] @ ''COMMAND:'' @ [newline] @ ''fastly '' @ Join args '' '' @ [newline, newline]"
    by (simp add: command_header_def)
  show ?thesis
    using 0 1 2 unfolding base_def rest_def by blast
qed

theorem persist_writes_header_first_witness:
  "[E2] \<noteq> [] \<and> \<not> open_fails env0 \<and> \<not> rotates env0 ''errors.log'' (w_old ''old'') \<and>
   fits (room env0 ''errors.log'' (w_old ''old'')) (command_header [''service'', ''describe'']) \<and>
   take 38 (content (snd (Persist env0 [E2] ''errors.log'' [''service'', ''describe''] (w_old ''old'')))
              ''errors.log'')
     = ''old'' @ [newline] @ ''COMMAND:'' @ [newline] @ ''fastly service describe'' @ [newline, newline]"
proof -
  have e: "[E2] \<noteq> []" "\<not> open_fails env0"
    by (simp_all add: env0_def)
  have n: "\<not> rotates env0 ''errors.log'' (w_old ''old'')"
    by (simp add: rotates_def content_def w_old_def env0_def default_FileRotationSize_def)
  then have r: "rotates env0 ''errors.log'' (w_old ''old'') \<longrightarrow> \<not> close_fails env0 \<and> \<not> create_fails env0"
    by simp
  have f: "fits (room env0 ''errors.log'' (w_old ''old'')) (command_header [''service'', ''describe''])"
    using n by (simp add: room_def fits_def w_old_def)
  have c: "content (w_old ''old'') ''errors.log'' = ''old''"
    by (simp add: content_def w_old_def)
  have b: "(if rotates env0 ''errors.log'' (w_old ''old'') then []
            else content (w_old ''old'') ''errors.log'') @ command_header [''service'', ''describe'']
      = ''old'' @ [newline] @ ''COMMAND:'' @ [newline] @ ''fastly service describe'' @ [newline, newline]"
    using n by (simp add: c command_header_def)
  have L: "length (''old'' @ [newline] @ ''COMMAND:'' @ [newline] @ ''fastly service describe''
                   @ [newline, newline]) = 38"
    by simp
  have "take 38 (content (snd (Persist env0 [E2] ''errors.log'' [''service'', ''describe''] (w_old ''old'')))
              ''errors.log'')
     = ''old'' @ [newline] @ ''COMMAND:'' @ [newline] @ ''fastly service describe'' @ [newline, newline]"
    using persist_writes_header_first[OF e r f] unfolding b L by blast
  then show ?thesis
    using e n f by blast
qed

section \<open>The entry store\<close>


text \<open>
  C9, as stated: every stored entry has a non-nil error.  The store takes whatever it is
  given: \<open>Add\<close> with a nil error stores an entry whose \<open>Err\<close> is nil.
\<close>

theorem stored_err_counterexample:
  "Err (Add \<lparr>now = 0::nat, caller = None\<rparr> None [] ! 0) = None"
  by (simp add: Add_def createLogEntry_def)

text \<open>
  C9, amended: the \<open>Err\<close> of every stored entry is the error value its recording call was
  given, so the entries of the store all have a non-nil error whenever every call was given
  a non-nil error (and the store started that way).
\<close>

theorem stored_err_is_recorded_err:
  "map Err (do_calls cs l) = map Err l @ map call_err cs \<and>
   ((\<forall>c \<in> set cs. call_err c \<noteq> None) \<and> (\<forall>e \<in> set l. Err e \<noteq> None)
      \<longrightarrow> (\<forall>e \<in> set (do_calls cs l). Err e \<noteq> None))"
proof -
  have m: "map Err (do_calls cs l) = map Err l @ map call_err cs"
    by (simp add: do_calls_eq Err_call_entry comp_def)
  have "set (map Err (do_calls cs l)) = Err ` set l \<union> call_err ` set cs"
    unfolding m by simp
  then have "\<And>e. e \<in> set (do_calls cs l) \<Longrightarrow> Err e \<in> Err ` set l \<union> call_err ` set cs"
    by auto
  then show ?thesis using m by fastforce
qed

theorem stored_err_is_recorded_err_witness:
  "call_err (CallAdd \<lparr>now = 1::nat, caller = None\<rparr> (Some ''a'')) \<noteq> None \<and>
   call_err (CallAddWithContext \<lparr>now = 2::nat, caller = None\<rparr> (Some ''b'') None) \<noteq> None \<and>
   None \<notin> Err ` set (do_calls [CallAdd \<lparr>now = 1::nat, caller = None\<rparr> (Some ''a''),
                                  CallAddWithContext \<lparr>now = 2, caller = None\<rparr> (Some ''b'') None] [])"
  using stored_err_is_recorded_err
    [of "[CallAdd \<lparr>now = 1::nat, caller = None\<rparr> (Some ''a''),
          CallAddWithContext \<lparr>now = 2, caller = None\<rparr> (Some ''b'') None]" "[]"]
  by auto

section \<open>The order of keys in a record\<close>




section \<open>Facts about matching\<close>

declare matches.simps [simp del]
declare replace_all.simps [simp del]

lemma starts_simps [simp]:
  "starts P [] = False"
  "starts P (c # s) = P c"
  by (simp_all add: starts_def)

lemma skip1_simps [simp]:
  "skip1 P [] = []"
  "skip1 P (c # s) = (if P c then s else c # s)"
  by (simp_all add: skip1_def)

lemma matches_Chars: "matches (Chars P) s = (if starts P s then [([], tl s)] else [])"
  by (cases s) (simp_all add: matches.simps)

lemma matches_Star_Chars: "matches (Star (Chars P)) s = map (Pair []) (star_rests P s)"
proof (induction s)
  case Nil
  show ?case by (simp add: matches.simps(6)[of _ "[]"] matches_Chars)
next
  case (Cons c s)
  show ?case
    by (simp add: matches.simps(6)[of _ "c # s"] matches_Chars Cons comp_def)
qed

lemma matches_Plus_Chars:
  "matches (Plus (Chars P)) s = (if starts P s then map (Pair []) (star_rests P (tl s)) else [])"
  by (simp add: Plus_def matches.simps(3) matches_Chars matches_Star_Chars comp_def)

lemma matches_Opt_Chars: "matches (Opt (Chars P)) s = map (Pair []) (opt_rests P s)"
  by (simp add: matches.simps(5) matches_Chars opt_rests_def)

lemma matches_Opt_Str1:
  "matches (Opt (Str [x])) s = map (Pair []) (opt_rests (\<lambda>c. c = x) s)"
  by (cases s) (auto simp add: matches.simps(5) matches.simps(2) opt_rests_def)

lemma star_rests_hd: "star_rests P s = dropWhile P s # tl (star_rests P s)"
proof (induction s)
  case Nil
  show ?case by simp
next
  case (Cons c s)
  then have "star_rests P s \<noteq> []" by (metis list.distinct(1))
  then show ?case using Cons by (cases "star_rests P s") auto
qed

lemma star_rests_tl:
  "x \<in> set (tl (star_rests P s)) \<Longrightarrow> starts P x \<and> dropWhile P x = dropWhile P s"
proof (induction s)
  case Nil
  then show ?case by simp
next
  case (Cons c s)
  show ?case
  proof (cases "P c")
    case False
    with Cons.prems show ?thesis by simp
  next
    case True
    have ne: "star_rests P s \<noteq> []" by (metis star_rests_hd list.distinct(1))
    then have "tl (star_rests P (c # s)) = tl (star_rests P s) @ [c # s]"
      using True by simp
    with Cons.prems have "x \<in> set (tl (star_rests P s)) \<or> x = c # s" by auto
    then show ?thesis using Cons.IH True by auto
  qed
qed

lemma matches_shorter: "(cs, rest) \<in> set (matches r s) \<Longrightarrow> length rest \<le> length s"
proof (induction r s arbitrary: cs rest rule: matches.induct)
  case (1 P s)
  then show ?case by (cases s) (auto simp: matches.simps split: if_splits)
next
  case (2 t s)
  then show ?case by (auto simp: matches.simps split: if_splits)
next
  case (3 r1 r2 s)
  from "3.prems" obtain m1 m2 where m1: "m1 \<in> set (matches r1 s)"
    and m2: "m2 \<in> set (matches r2 (snd m1))" and m: "rest = snd m2"
    by (auto simp: matches.simps)
  have "length (snd m1) \<le> length s" using "3.IH"(1)[of "fst m1" "snd m1"] m1 by simp
  moreover have "length (snd m2) \<le> length (snd m1)"
    using "3.IH"(2)[of m1 "fst m2" "snd m2"] m1 m2 by simp
  ultimately show ?case using m by simp
next
  case (4 r1 r2 s)
  then show ?case by (auto simp: matches.simps)
next
  case (5 r s)
  then show ?case by (auto simp: matches.simps)
next
  case (6 r s)
  from "6.prems" consider "rest = s"
    | m1 aa where "m1 \<in> set (matches r s)" "length (snd m1) < length s"
        "(aa, rest) \<in> set (matches (Star r) (snd m1))"
    by (subst (asm) matches.simps) (auto split: if_splits)
  then show ?case
  proof cases
    case 1
    then show ?thesis by simp
  next
    case 2
    then have "length rest \<le> length (snd m1)"
      using "6.IH"(2)[of m1 aa rest] by simp
    then show ?thesis using 2 by simp
  qed
next
  case (7 n r s)
  then show ?case by (auto simp: matches.simps)
qed


section \<open>Replacing with an expression whose matches are never empty\<close>

lemma find_first_progress:
  assumes c: "\<And>s cs rest. (cs, rest) \<in> set (matches re s) \<Longrightarrow> length rest < length s"
  shows "find_first re s = Some (pre, caps, rest)
         \<Longrightarrow> map_of caps 0 \<noteq> Some [] \<and> length rest < length s"
proof (induction s arbitrary: pre)
  case Nil
  have "matches re [] = []"
  proof (cases "matches re []")
    case (Cons m ms)
    then have "(fst m, snd m) \<in> set (matches re [])" by simp
    from c[OF this] show ?thesis by simp
  qed simp
  with Nil show ?case by simp
next
  case (Cons x xs)
  show ?case
  proof (cases "matches re (x # xs)")
    case Nil
    with Cons.prems obtain pre' where "find_first re xs = Some (pre', caps, rest)"
      by (auto split: prod.splits)
    from Cons.IH[OF this] show ?thesis by simp
  next
    case (Cons m ms)
    then have "(fst m, snd m) \<in> set (matches re (x # xs))" by simp
    from c[OF this] have "length (snd m) < length (x # xs)" .
    with Cons Cons.prems show ?thesis by auto
  qed
qed

lemma replace_all_consuming:
  assumes c: "\<And>s cs rest. (cs, rest) \<in> set (matches re s) \<Longrightarrow> length rest < length s"
  shows "replace_all re repl a src =
     (case find_first re src of
        None \<Rightarrow> src
      | Some (pre, caps, rest) \<Rightarrow> pre @ expand repl caps @ replace_all re repl True rest)"
proof (cases "find_first re src")
  case None
  then show ?thesis by (subst replace_all.simps) simp
next
  case (Some t)
  obtain pre caps rest where t: "t = (pre, caps, rest)" by (cases t)
  have ff: "find_first re src = Some (pre, caps, rest)" using Some t by simp
  have "map_of caps 0 \<noteq> Some [] \<and> length rest < length src"
    using c ff by (rule find_first_progress)
  then show ?thesis using Some t by (subst replace_all.simps) simp
qed

lemma replace_all_no_match:
  assumes c: "\<And>s cs rest. (cs, rest) \<in> set (matches re s) \<Longrightarrow> length rest < length s"
    and n: "matches re (x # xs) = []"
  shows "replace_all re repl a (x # xs) = x # replace_all re repl b xs"
proof -
  have A: "replace_all re repl a (x # xs) =
     (case find_first re (x # xs) of
        None \<Rightarrow> x # xs
      | Some (pre, caps, rest) \<Rightarrow> pre @ expand repl caps @ replace_all re repl True rest)"
    by (rule replace_all_consuming[OF c])
  have B: "replace_all re repl b xs =
     (case find_first re xs of
        None \<Rightarrow> xs
      | Some (pre, caps, rest) \<Rightarrow> pre @ expand repl caps @ replace_all re repl True rest)"
    by (rule replace_all_consuming[OF c])
  show ?thesis
    unfolding A B by (simp add: n split: option.splits)
qed

lemma replace_all_match:
  assumes c: "\<And>s cs rest. (cs, rest) \<in> set (matches re s) \<Longrightarrow> length rest < length s"
    and m: "matches re s = (cs, rest) # ms"
  shows "replace_all re repl a s =
     expand repl ((0, take (length s - length rest) s) # cs) @ replace_all re repl True rest"
proof (cases s)
  case Nil
  have "(cs, rest) \<in> set (matches re s)" using m by simp
  from c[OF this] show ?thesis using Nil by simp
next
  case (Cons x xs)
  have A: "replace_all re repl a (x # xs) =
     (case find_first re (x # xs) of
        None \<Rightarrow> x # xs
      | Some (pre, caps, rest) \<Rightarrow> pre @ expand repl caps @ replace_all re repl True rest)"
    by (rule replace_all_consuming[OF c])
  show ?thesis
    unfolding Cons A using m[unfolded Cons] by simp
qed


section \<open>The first pass is the first scan\<close>

lemma matches_Str_Token:
  "matches (Str ''Token '') s = (if take 6 s = ''Token '' then [([], drop 6 s)] else [])"
proof -
  have "length ''Token '' = 6" by simp
  then show ?thesis by (simp only: matches.simps(2))
qed

lemma matches_TokenRegEx:
  "matches TokenRegEx s =
     (if token_at s
      then map (\<lambda>x. ([(1, take (length (drop 6 s) - length x) (drop 6 s))], x))
             (star_rests token_char (tl (drop 6 s)))
      else [])"
  by (simp add: TokenRegEx_def matches.simps(3,7) matches_Str_Token matches_Plus_Chars
      token_at_def comp_def)

lemma TokenRegEx_consuming:
  assumes "(cs, rest) \<in> set (matches TokenRegEx s)"
  shows "length rest < length s"
proof -
  from assms have t: "take 6 s = ''Token ''"
    and m: "(cs, rest) \<in> set (map (\<lambda>m. (fst m, snd m))
              (matches (Group 1 (Plus (Chars token_char))) (drop 6 s)))"
    by (auto simp: TokenRegEx_def matches.simps(3) matches_Str_Token split: if_splits)
  from m obtain cs' where "(cs', rest) \<in> set (matches (Group 1 (Plus (Chars token_char))) (drop 6 s))"
    by auto
  then have "length rest \<le> length (drop 6 s)"
    by (rule matches_shorter)
  moreover have "length (take 6 s) = 6" using t by simp
  ultimately show ?thesis by simp
qed

lemma matches_TokenRegEx_first:
  assumes "token_at s"
  shows "\<exists>cs ms. matches TokenRegEx s = (cs, dropWhile token_char (drop 6 s)) # ms"
proof -
  from assms have st: "starts token_char (drop 6 s)"
    by (simp add: token_at_def)
  then have d: "dropWhile token_char (tl (drop 6 s)) = dropWhile token_char (drop 6 s)"
    by (cases "drop 6 s") simp_all
  obtain xs where "star_rests token_char (tl (drop 6 s)) = dropWhile token_char (drop 6 s) # xs"
    using star_rests_hd[of token_char "tl (drop 6 s)"] d by simp
  then show ?thesis
    using assms by (simp add: matches_TokenRegEx)
qed

lemma replace_all_TokenRegEx:
  "replace_all TokenRegEx [Text ''Token REDACTED''] a s = redact_token_words s"
proof (induction s arbitrary: a rule: redact_token_words.induct)
  case 1
  show ?case
    by (subst replace_all.simps) (simp add: matches_TokenRegEx token_at_def)
next
  case (2 c s)
  show ?case
  proof (cases "token_at (c # s)")
    case True
    from matches_TokenRegEx_first[OF True] obtain cs ms where
      m: "matches TokenRegEx (c # s) = (cs, dropWhile token_char (drop 6 (c # s))) # ms"
      by blast
    have "replace_all TokenRegEx [Text ''Token REDACTED''] a (c # s) =
        expand [Text ''Token REDACTED'']
          ((0, take (length (c # s) - length (dropWhile token_char (drop 6 (c # s)))) (c # s)) # cs)
        @ replace_all TokenRegEx [Text ''Token REDACTED''] True (dropWhile token_char (drop 6 (c # s)))"
      using TokenRegEx_consuming m by (rule replace_all_match)
    then show ?thesis
      using True "2.IH"(1)[OF True, of True] by simp
  next
    case False
    then have n: "matches TokenRegEx (c # s) = []"
      by (simp add: matches_TokenRegEx)
    have "replace_all TokenRegEx [Text ''Token REDACTED''] a (c # s) =
        c # replace_all TokenRegEx [Text ''Token REDACTED''] a s"
      using TokenRegEx_consuming n by (rule replace_all_no_match)
    then show ?thesis
      using False "2.IH"(2)[OF False, of a] by simp
  qed
qed


section \<open>The second pass is the second scan\<close>

lemma matches_Cat_rests:
  assumes "\<And>s. matches r1 s = map (Pair []) (R1 s)"
    and "\<And>s. matches r2 s = map (Pair []) (R2 s)"
  shows "matches (Cat r1 r2) s = map (Pair []) (concat (map R2 (R1 s)))"
  by (simp add: matches.simps(3) assms map_concat comp_def)

lemma skip1_id: "\<not> starts P x \<Longrightarrow> skip1 P x = x"
  by (cases x) simp_all

lemma starts_mono: "starts P x \<Longrightarrow> (\<And>c. P c \<Longrightarrow> Q c) \<Longrightarrow> starts Q x"
  by (cases x) simp_all

lemma starts_excl: "starts P x \<Longrightarrow> (\<And>c. P c \<Longrightarrow> \<not> Q c) \<Longrightarrow> \<not> starts Q x"
  by (cases x) simp_all

lemma concat_map_concat_map:
  "concat (map k (concat (map f xs))) = concat (map (\<lambda>x. concat (map k (f x))) xs)"
  by (induction xs) simp_all

lemma concat_opt_rests:
  assumes "\<And>c r. P c \<Longrightarrow> k (c # r) = []"
  shows "concat (map k (opt_rests P s)) = k (skip1 P s)"
  by (cases s) (simp_all add: opt_rests_def assms)

lemma concat_star_rests:
  assumes "\<And>c r. P c \<Longrightarrow> k (c # r) = []"
  shows "concat (map k (star_rests P s)) = k (dropWhile P s)"
  by (induction s) (simp_all add: assms)

lemma opt_rests_hd: "opt_rests P s = skip1 P s # tl (opt_rests P s)"
  by (cases s) (simp_all add: opt_rests_def)

text \<open>The separator \<^verbatim>\<open>\s*=?\s*['"]?\<close>: what it can leave of \<open>s\<close>.\<close>

lemma matches_separator:
  "matches (Cat (Star (Chars space_char))
           (Cat (Opt (Str ''=''))
           (Cat (Star (Chars space_char)) (Opt (Chars quote_char))))) s =
     map (Pair [])
       (concat (map (\<lambda>a. concat (map (\<lambda>b. concat (map (opt_rests quote_char) (star_rests space_char b)))
                                        (opt_rests (\<lambda>c. c = CHR ''='') a)))
                    (star_rests space_char s)))"
  by (intro matches_Cat_rests matches_Star_Chars matches_Opt_Str1 matches_Opt_Chars)

lemma not_token_space: "space_char c \<Longrightarrow> \<not> token_char c"
  by (auto simp: space_char_def token_char_def word_char_def less_eq_char_def)

lemma not_token_quote: "quote_char c \<Longrightarrow> \<not> token_char c"
  by (auto simp: quote_char_def token_char_def word_char_def less_eq_char_def)

lemma not_token_eq: "\<not> token_char CHR ''=''"
  by (auto simp: token_char_def word_char_def less_eq_char_def)

lemma not_quote_space: "space_char c \<Longrightarrow> \<not> quote_char c"
  by (auto simp: space_char_def quote_char_def)

lemma not_space_eq: "\<not> space_char CHR ''=''"
  by (auto simp: space_char_def)

lemma not_quote_eq: "\<not> quote_char CHR ''=''"
  by (auto simp: quote_char_def)

text \<open>
  A continuation that needs a token character at the start of its input sees, of all the
  ways the separator can match, only the longest.
\<close>

lemma separator_then:
  fixes k :: "string \<Rightarrow> 'a list"
  assumes dies: "\<And>x. \<not> starts token_char x \<Longrightarrow> k x = []"
  shows "concat (map k (concat (map (\<lambda>a. concat (map (\<lambda>b. concat (map (opt_rests quote_char) (star_rests space_char b)))
                                        (opt_rests (\<lambda>c. c = CHR ''='') a)))
                    (star_rests space_char s)))) =
         (if starts token_char (after_separator s)
          then k (after_separator s)
               @ concat (map (\<lambda>a. k (skip1 quote_char (dropWhile space_char (skip1 (\<lambda>c. c = CHR ''='') a))))
                             (tl (star_rests space_char s)))
          else [])"
proof -
  let ?eq = "\<lambda>c. c = CHR ''=''"
  have k3: "concat (map k (opt_rests quote_char c)) = k (skip1 quote_char c)" for c
    by (rule concat_opt_rests) (simp add: dies not_token_quote)
  have k2: "concat (map (\<lambda>c. k (skip1 quote_char c)) (star_rests space_char b))
      = k (skip1 quote_char (dropWhile space_char b))" for b
    by (rule concat_star_rests) (simp add: dies not_token_space not_quote_space)
  have k1: "concat (map (\<lambda>b. k (skip1 quote_char (dropWhile space_char b))) (opt_rests ?eq a))
      = k (skip1 quote_char (dropWhile space_char (skip1 ?eq a)))" for a
    by (rule concat_opt_rests) (simp add: dies not_token_eq not_space_eq not_quote_eq)
  let ?k1 = "\<lambda>a. k (skip1 quote_char (dropWhile space_char (skip1 ?eq a)))"
  have flat: "concat (map k (concat (map (\<lambda>a. concat (map (\<lambda>b. concat (map (opt_rests quote_char) (star_rests space_char b)))
                                        (opt_rests ?eq a)))
                    (star_rests space_char s)))) = concat (map ?k1 (star_rests space_char s))"
    by (simp only: concat_map_concat_map k3 k2 k1)
  have split: "concat (map ?k1 (star_rests space_char s))
      = k (after_separator s) @ concat (map ?k1 (tl (star_rests space_char s)))"
    by (subst star_rests_hd) (simp add: after_separator_def)
  show ?thesis
  proof (cases "starts token_char (after_separator s)")
    case True
    then show ?thesis by (simp add: flat split)
  next
    case False
    then have e: "k (after_separator s) = []" by (rule dies)
    have "?k1 x = []" if x: "x \<in> set (tl (star_rests space_char s))" for x
    proof -
      from star_rests_tl[OF x] have sx: "starts space_char x"
        and dx: "dropWhile space_char x = dropWhile space_char s" by simp_all
      from sx have "skip1 ?eq x = x"
        by (intro skip1_id starts_excl[OF sx]) (auto simp: not_space_eq)
      then have kx: "?k1 x = k (skip1 quote_char (dropWhile space_char s))"
        by (simp add: dx)
      show ?thesis
      proof (cases "starts ?eq (dropWhile space_char s)")
        case True
        have "skip1 quote_char (dropWhile space_char s) = dropWhile space_char s"
          by (intro skip1_id starts_excl[OF True]) (auto simp: not_quote_eq)
        moreover have "\<not> starts token_char (dropWhile space_char s)"
          by (intro starts_excl[OF True]) (auto simp: not_token_eq)
        ultimately show ?thesis using kx dies by simp
      next
        case False
        then have "skip1 ?eq (dropWhile space_char s) = dropWhile space_char s"
          by (rule skip1_id)
        then have "after_separator s = skip1 quote_char (dropWhile space_char s)"
          by (simp add: after_separator_def)
        then show ?thesis using kx e by simp
      qed
    qed
    then have "concat (map ?k1 (tl (star_rests space_char s))) = []"
      by simp
    then show ?thesis using False e by (simp add: flat split)
  qed
qed


text \<open>The value and the closing quote, \<^verbatim>\<open>([\w-]+)(['"]?)\<close>.\<close>

lemma matches_value:
  "matches (Cat (Group 3 (Plus (Chars token_char))) (Group 4 (Opt (Chars quote_char)))) r =
     (if starts token_char r
      then concat (map (\<lambda>x. map (\<lambda>y. ([(3, take (length r - length x) r),
                                          (4, take (length x - length y) x)], y))
                                 (opt_rests quote_char x))
                       (star_rests token_char (tl r)))
      else [])"
  by (simp add: matches.simps(3,7) matches_Plus_Chars matches_Opt_Chars comp_def)

lemma matches_value_first:
  assumes "starts token_char r"
  shows "\<exists>ms. matches (Cat (Group 3 (Plus (Chars token_char))) (Group 4 (Opt (Chars quote_char)))) r =
     ([(3, take (length r - length (dropWhile token_char r)) r),
       (4, take (length (dropWhile token_char r) - length (skip1 quote_char (dropWhile token_char r)))
             (dropWhile token_char r))],
      skip1 quote_char (dropWhile token_char r)) # ms"
proof -
  have d: "dropWhile token_char (tl r) = dropWhile token_char r"
    using assms by (cases r) simp_all
  obtain xs where xs: "star_rests token_char (tl r) = dropWhile token_char r # xs"
    using star_rests_hd[of token_char "tl r"] d by simp
  obtain ys where ys: "opt_rests quote_char (dropWhile token_char r)
      = skip1 quote_char (dropWhile token_char r) # ys"
    using opt_rests_hd[of quote_char "dropWhile token_char r"] by simp
  show ?thesis
    using assms by (simp add: matches_value xs ys)
qed

text \<open>The separator, the value and the closing quote.\<close>

lemma matches_flag_tail:
  "matches (Cat (Group 2 (Cat (Star (Chars space_char))
                        (Cat (Opt (Str ''=''))
                        (Cat (Star (Chars space_char)) (Opt (Chars quote_char))))))
                (Cat (Group 3 (Plus (Chars token_char))) (Group 4 (Opt (Chars quote_char))))) s =
     (let k = (\<lambda>r. map (\<lambda>m2. ((2, take (length s - length r) s) # fst m2, snd m2))
                     (matches (Cat (Group 3 (Plus (Chars token_char)))
                                   (Group 4 (Opt (Chars quote_char)))) r))
      in if starts token_char (after_separator s)
         then k (after_separator s)
              @ concat (map (\<lambda>a. k (skip1 quote_char (dropWhile space_char (skip1 (\<lambda>c. c = CHR ''='') a))))
                            (tl (star_rests space_char s)))
         else [])"
proof -
  let ?X = "Cat (Group 3 (Plus (Chars token_char))) (Group 4 (Opt (Chars quote_char)))"
  let ?k = "\<lambda>r. map (\<lambda>m2. ((2, take (length s - length r) s) # fst m2, snd m2)) (matches ?X r)"
  have dies: "?k x = []" if "\<not> starts token_char x" for x
    using that by (simp add: matches_value)
  show ?thesis
    unfolding Let_def
    by (subst separator_then[of ?k s, OF dies, symmetric])
       (simp_all add: matches.simps(3)[of "Group 2 _"] matches.simps(7)[of 2] matches_separator comp_def)
qed

lemma matches_flag_tail_first:
  assumes "starts token_char (after_separator s)"
  shows "\<exists>ms. matches (Cat (Group 2 (Cat (Star (Chars space_char))
                        (Cat (Opt (Str ''=''))
                        (Cat (Star (Chars space_char)) (Opt (Chars quote_char))))))
                (Cat (Group 3 (Plus (Chars token_char))) (Group 4 (Opt (Chars quote_char))))) s =
     ([(2, take (length s - length (after_separator s)) s),
       (3, take (length (after_separator s) - length (dropWhile token_char (after_separator s)))
             (after_separator s)),
       (4, take (length (dropWhile token_char (after_separator s))
                 - length (skip1 quote_char (dropWhile token_char (after_separator s))))
             (dropWhile token_char (after_separator s)))],
      skip1 quote_char (dropWhile token_char (after_separator s))) # ms"
proof -
  from matches_value_first[OF assms] obtain ms where
    "matches (Cat (Group 3 (Plus (Chars token_char))) (Group 4 (Opt (Chars quote_char)))) (after_separator s) =
     ([(3, take (length (after_separator s) - length (dropWhile token_char (after_separator s)))
             (after_separator s)),
       (4, take (length (dropWhile token_char (after_separator s))
                 - length (skip1 quote_char (dropWhile token_char (after_separator s))))
             (dropWhile token_char (after_separator s)))],
      skip1 quote_char (dropWhile token_char (after_separator s))) # ms"
    by blast
  then show ?thesis
    using assms by (simp add: matches_flag_tail Let_def)
qed

lemma matches_flag_tail_none:
  assumes "\<not> starts token_char (after_separator s)"
  shows "matches (Cat (Group 2 (Cat (Star (Chars space_char))
                        (Cat (Opt (Str ''=''))
                        (Cat (Star (Chars space_char)) (Opt (Chars quote_char))))))
                (Cat (Group 3 (Plus (Chars token_char))) (Group 4 (Opt (Chars quote_char))))) s = []"
  using assms by (simp add: matches_flag_tail Let_def)

text \<open>The flag, \<^verbatim>\<open>(-t|--token)\<close>.\<close>

lemma matches_flag:
  "matches (Group 1 (Alt (Str ''-t'') (Str ''--token''))) s =
     (if flag_of s = [] then [] else [([(1, flag_of s)], drop (length (flag_of s)) s)])"
proof -
  have l2: "length ''-t'' = 2" and l7: "length ''--token'' = 7" by simp_all
  have t2: "take (length s - length (drop 2 s)) s = ''-t''" if "take 2 s = ''-t''"
  proof -
    have "length (take 2 s) = 2" using that by simp
    then have "length s - length (drop 2 s) = 2" by simp
    then show ?thesis using that by simp
  qed
  have t7: "take (length s - length (drop 7 s)) s = ''--token''" if "take 7 s = ''--token''"
  proof -
    have "length (take 7 s) = 7" using that by simp
    then have "length s - length (drop 7 s) = 7" by simp
    then show ?thesis using that by simp
  qed
  have excl: "take 2 s = ''-t'' \<Longrightarrow> take 7 s \<noteq> ''--token''"
    by (cases s; cases "tl s") auto
  have s2: "Suc (Suc 0) = 2" and s7: "Suc (Suc (Suc (Suc (Suc (Suc (Suc 0)))))) = 7"
    by simp_all
  show ?thesis
    unfolding matches.simps(7) matches.simps(4) matches.simps(2) l2 l7
    using excl t2 t7 by (auto simp: flag_of_def s2 s7)
qed

lemma matches_TokenFlagRegEx:
  "matches TokenFlagRegEx s =
     (if flag_of s = [] then []
      else map (\<lambda>m2. ((1, flag_of s) # fst m2, snd m2))
             (matches (Cat (Group 2 (Cat (Star (Chars space_char))
                        (Cat (Opt (Str ''=''))
                        (Cat (Star (Chars space_char)) (Opt (Chars quote_char))))))
                (Cat (Group 3 (Plus (Chars token_char))) (Group 4 (Opt (Chars quote_char)))))
                (drop (length (flag_of s)) s)))"
  unfolding TokenFlagRegEx_def
  by (subst matches.simps(3), simp only: matches_flag) simp


lemma length_skip1: "length (skip1 P x) \<le> length x"
  by (cases x) simp_all

lemma length_after_separator: "length (after_separator x) \<le> length x"
  unfolding after_separator_def
  by (meson length_skip1 length_dropWhile_le le_trans)

lemma flag_of_take: "flag_of s = take (length (flag_of s)) s"
proof -
  have l2: "length ''-t'' = 2" and l7: "length ''--token'' = 7" by simp_all
  consider "take 2 s = ''-t''" | "take 2 s \<noteq> ''-t''" "take 7 s = ''--token''"
    | "take 2 s \<noteq> ''-t''" "take 7 s \<noteq> ''--token''" by blast
  then show ?thesis
  proof cases
    case 1
    then have "flag_of s = ''-t''" by (simp add: flag_of_def)
    then show ?thesis using 1 by (simp only: l2)
  next
    case 2
    then have "flag_of s = ''--token''" by (simp add: flag_of_def)
    then show ?thesis using 2 by (simp only: l7)
  next
    case 3
    then show ?thesis by (simp add: flag_of_def)
  qed
qed

lemma flag_of_length: "flag_of s \<noteq> [] \<Longrightarrow> 0 < length (flag_of s) \<and> length (flag_of s) \<le> length s"
proof -
  assume "flag_of s \<noteq> []"
  then have "length (take (length (flag_of s)) s) = length (flag_of s)"
    using flag_of_take[of s] by simp
  moreover have "0 < length (flag_of s)" using \<open>flag_of s \<noteq> []\<close> by simp
  ultimately show ?thesis by (simp del: length_greater_0_conv)
qed

lemma TokenFlagRegEx_consuming:
  assumes "(cs, rest) \<in> set (matches TokenFlagRegEx s)"
  shows "length rest < length s"
proof -
  from assms have f: "flag_of s \<noteq> []"
    by (auto simp: matches_TokenFlagRegEx split: if_splits)
  with assms obtain cs' where
    "(cs', rest) \<in> set (matches (Cat (Group 2 (Cat (Star (Chars space_char))
                        (Cat (Opt (Str ''=''))
                        (Cat (Star (Chars space_char)) (Opt (Chars quote_char))))))
                (Cat (Group 3 (Plus (Chars token_char))) (Group 4 (Opt (Chars quote_char)))))
                (drop (length (flag_of s)) s))"
    by (auto simp: matches_TokenFlagRegEx)
  then have "length rest \<le> length (drop (length (flag_of s)) s)"
    by (rule matches_shorter)
  then have "length rest \<le> length s - length (flag_of s)" by simp
  moreover have "0 < length (flag_of s)" "length (flag_of s) \<le> length s"
    using flag_of_length[OF f] by blast+
  ultimately show ?thesis by arith
qed

lemma matches_TokenFlagRegEx_first:
  assumes "flag_at s"
  shows "\<exists>ms. matches TokenFlagRegEx s =
     ([(1, flag_of s),
       (2, take (length (drop (length (flag_of s)) s)
                 - length (after_separator (drop (length (flag_of s)) s)))
             (drop (length (flag_of s)) s)),
       (3, take (length (after_separator (drop (length (flag_of s)) s))
                 - length (dropWhile token_char (after_separator (drop (length (flag_of s)) s))))
             (after_separator (drop (length (flag_of s)) s))),
       (4, take (length (dropWhile token_char (after_separator (drop (length (flag_of s)) s)))
                 - length (skip1 quote_char (dropWhile token_char
                             (after_separator (drop (length (flag_of s)) s)))))
             (dropWhile token_char (after_separator (drop (length (flag_of s)) s))))],
      skip1 quote_char (dropWhile token_char (after_separator (drop (length (flag_of s)) s)))) # ms"
proof -
  from assms have f: "flag_of s \<noteq> []"
    and st: "starts token_char (after_separator (drop (length (flag_of s)) s))"
    by (simp_all add: flag_at_def)
  from matches_flag_tail_first[OF st] obtain ms where
    "matches (Cat (Group 2 (Cat (Star (Chars space_char))
                        (Cat (Opt (Str ''=''))
                        (Cat (Star (Chars space_char)) (Opt (Chars quote_char))))))
                (Cat (Group 3 (Plus (Chars token_char))) (Group 4 (Opt (Chars quote_char)))))
        (drop (length (flag_of s)) s) =
     ([(2, take (length (drop (length (flag_of s)) s)
                 - length (after_separator (drop (length (flag_of s)) s)))
             (drop (length (flag_of s)) s)),
       (3, take (length (after_separator (drop (length (flag_of s)) s))
                 - length (dropWhile token_char (after_separator (drop (length (flag_of s)) s))))
             (after_separator (drop (length (flag_of s)) s))),
       (4, take (length (dropWhile token_char (after_separator (drop (length (flag_of s)) s)))
                 - length (skip1 quote_char (dropWhile token_char
                             (after_separator (drop (length (flag_of s)) s)))))
             (dropWhile token_char (after_separator (drop (length (flag_of s)) s))))],
      skip1 quote_char (dropWhile token_char (after_separator (drop (length (flag_of s)) s)))) # ms"
    by blast
  then show ?thesis
    unfolding matches_TokenFlagRegEx using f by simp
qed

lemma matches_TokenFlagRegEx_none:
  assumes "\<not> flag_at s"
  shows "matches TokenFlagRegEx s = []"
proof (cases "flag_of s = []")
  case True
  then show ?thesis by (simp add: matches_TokenFlagRegEx)
next
  case False
  with assms have "\<not> starts token_char (after_separator (drop (length (flag_of s)) s))"
    by (simp add: flag_at_def)
  from matches_flag_tail_none[OF this] show ?thesis
    by (simp add: matches_TokenFlagRegEx)
qed

lemma kept_text:
  assumes "flag_of s \<noteq> []"
  shows "take (length s - length (after_separator (drop (length (flag_of s)) s))) s =
         flag_of s @ take (length (drop (length (flag_of s)) s)
                           - length (after_separator (drop (length (flag_of s)) s)))
                          (drop (length (flag_of s)) s)"
proof -
  let ?n = "length (flag_of s)"
  let ?v = "after_separator (drop ?n s)"
  have "length ?v \<le> length s - ?n"
    using length_after_separator[of "drop ?n s"] by simp
  moreover have "?n \<le> length s" using flag_of_length[OF assms] by simp
  ultimately have "length s - length ?v = ?n + (length (drop ?n s) - length ?v)"
    by simp
  then have "take (length s - length ?v) s = take ?n s @ take (length (drop ?n s) - length ?v) (drop ?n s)"
    by (simp only: take_add)
  then show ?thesis using flag_of_take[of s] by simp
qed

lemma replace_all_TokenFlagRegEx:
  "replace_all TokenFlagRegEx [Ref 1, Ref 2, Text ''REDACTED'', Ref 4] a s = redact_flag_values s"
proof (induction s arbitrary: a rule: redact_flag_values.induct)
  case 1
  have "matches TokenFlagRegEx [] = []"
    by (rule matches_TokenFlagRegEx_none) (simp add: flag_at_def flag_of_def)
  then show ?case
    by (subst replace_all.simps) simp
next
  case (2 c s)
  show ?case
  proof (cases "flag_at (c # s)")
    case True
    then have f: "flag_of (c # s) \<noteq> []" by (simp add: flag_at_def)
    let ?v = "after_separator (drop (length (flag_of (c # s))) (c # s))"
    let ?r = "dropWhile token_char ?v"
    let ?r' = "skip1 quote_char ?r"
    from matches_TokenFlagRegEx_first[OF True] obtain cs ms where
      m: "matches TokenFlagRegEx (c # s) = (cs, ?r') # ms"
      and cs: "cs = [(1, flag_of (c # s)),
       (2, take (length (drop (length (flag_of (c # s))) (c # s)) - length ?v)
             (drop (length (flag_of (c # s))) (c # s))),
       (3, take (length ?v - length ?r) ?v),
       (4, take (length ?r - length ?r') ?r)]"
      by blast
    have "replace_all TokenFlagRegEx [Ref 1, Ref 2, Text ''REDACTED'', Ref 4] a (c # s) =
        expand [Ref 1, Ref 2, Text ''REDACTED'', Ref 4]
          ((0, take (length (c # s) - length ?r') (c # s)) # cs)
        @ replace_all TokenFlagRegEx [Ref 1, Ref 2, Text ''REDACTED'', Ref 4] True ?r'"
      using TokenFlagRegEx_consuming m by (rule replace_all_match)
    also have "\<dots> = flag_of (c # s)
        @ take (length (drop (length (flag_of (c # s))) (c # s)) - length ?v)
             (drop (length (flag_of (c # s))) (c # s))
        @ ''REDACTED'' @ take (length ?r - length ?r') ?r @ redact_flag_values ?r'"
      using "2.IH"(1)[OF True refl refl refl, of True] by (simp add: cs)
    also have "\<dots> = redact_flag_values (c # s)"
      using True kept_text[OF f] by (simp add: Let_def)
    finally show ?thesis .
  next
    case False
    then have n: "matches TokenFlagRegEx (c # s) = []"
      by (rule matches_TokenFlagRegEx_none)
    have "replace_all TokenFlagRegEx [Ref 1, Ref 2, Text ''REDACTED'', Ref 4] a (c # s) =
        c # replace_all TokenFlagRegEx [Ref 1, Ref 2, Text ''REDACTED'', Ref 4] a s"
      using TokenFlagRegEx_consuming n by (rule replace_all_no_match)
    then show ?thesis
      using False "2.IH"(2)[OF False, of a] by simp
  qed
qed

lemma FilterToken_eq_scans: "FilterToken s = redact_flag_values (redact_token_words s)"
  unfolding FilterToken_def ReplaceAllString_def Let_def replace_all_TokenRegEx
    replace_all_TokenFlagRegEx
  by (rule refl)


section \<open>Facts about the two scans\<close>

lemma token_char_REDACTED [simp]:
  "token_char CHR ''R''" "token_char CHR ''E''" "token_char CHR ''D''"
  "token_char CHR ''A''" "token_char CHR ''C''" "token_char CHR ''T''"
  "token_char CHR ''-''"
  by (simp_all add: token_char_def word_char_def less_eq_char_def)

lemma not_token_char_space [simp]: "\<not> token_char CHR '' ''"
  by (simp add: token_char_def word_char_def less_eq_char_def)

lemma not_starts_dropWhile: "\<not> starts P (dropWhile P x)"
  by (induction x) simp_all

lemma dropWhile_id: "\<not> starts P x \<Longrightarrow> dropWhile P x = x"
  by (cases x) simp_all

lemma takeWhile_Nil: "\<not> starts P x \<Longrightarrow> takeWhile P x = []"
  by (cases x) simp_all

lemma starts_append: "starts P (u @ w) = (if u = [] then starts P w else starts P u)"
  by (cases u) simp_all

lemma token_at_Cons: "token_at (c # s) \<Longrightarrow> c = CHR ''T''"
  by (simp add: token_at_def)

lemma token_at_split:
  "token_at s \<Longrightarrow> s = ''Token '' @ takeWhile token_char (drop 6 s) @ dropWhile token_char (drop 6 s)"
proof -
  assume "token_at s"
  then have "take 6 s = ''Token ''" by (simp add: token_at_def)
  then have "s = ''Token '' @ drop 6 s"
    by (metis append_take_drop_id)
  then show ?thesis by (metis takeWhile_dropWhile_id)
qed

lemma starts_redact_token_words: "starts P (redact_token_words s) = starts P s"
proof (cases s)
  case Nil
  then show ?thesis by simp
next
  case (Cons c r)
  then show ?thesis by (auto dest: token_at_Cons)
qed

lemma token_at_Token_REDACTED [simp]: "token_at (''Token REDACTED'' @ w)"
  by (simp add: token_at_def)

text \<open>\<open>token_at\<close> looks at seven characters.\<close>

lemma token_at_window:
  assumes "x \<noteq> []"
  shows "token_at (x @ ''Token '' @ a) = token_at (x @ ''Token '' @ b)"
proof -
  obtain x0 x' where x: "x = x0 # x'" using assms by (cases x) auto
  have t: "take 5 (x' @ ''Token '' @ a) = take 5 (x' @ ''Token '' @ b)"
    by (simp add: take_Cons')
  have d: "starts token_char (drop 5 (x' @ ''Token '' @ a))
      = starts token_char (drop 5 (x' @ ''Token '' @ b))"
  proof (cases "5 \<le> length x'")
    case True
    then show ?thesis by (simp add: starts_append)
  next
    case False
    then have "5 - length x' \<in> {1, 2, 3, 4, 5}" by auto
    then show ?thesis using False
      by (auto simp add: starts_append drop_Cons')
  qed
  show ?thesis
    unfolding x token_at_def using t d by simp
qed

lemma token_at_dash:
  assumes "token_at (x @ CHR ''-'' # a)"
  shows "token_at (x @ CHR ''-'' # b)"
proof -
  have len: "6 \<le> length x"
  proof (rule ccontr)
    assume "\<not> 6 \<le> length x"
    then have l: "length x < 6" by simp
    have "take 6 (x @ CHR ''-'' # a) ! length x = (x @ CHR ''-'' # a) ! length x"
      using l by (rule nth_take)
    then have "''Token '' ! length x = CHR ''-''"
      using assms by (simp add: token_at_def)
    moreover have "''Token '' ! length x \<in> set ''Token ''"
      using l by (intro nth_mem) simp
    ultimately show False by simp
  qed
  then show ?thesis
    using assms by (simp add: token_at_def starts_append)
qed

lemma token_at_redact_token_words:
  "token_at (x @ redact_token_words s) \<Longrightarrow> token_at (x @ s)"
proof (induction s arbitrary: x rule: redact_token_words.induct)
  case 1
  then show ?case by simp
next
  case (2 c s)
  show ?case
  proof (cases "token_at (c # s)")
    case True
    show ?thesis
    proof (cases "x = []")
      case True
      with \<open>token_at (c # s)\<close> show ?thesis by simp
    next
      case False
      let ?r = "dropWhile token_char (drop 6 (c # s))"
      have "token_at (x @ ''Token '' @ ''REDACTED'' @ redact_token_words ?r)"
        using "2.prems" True by simp
      then have "token_at (x @ ''Token '' @ takeWhile token_char (drop 6 (c # s)) @ ?r)"
        using token_at_window[OF False] by blast
      then show ?thesis using token_at_split[OF True] by simp
    qed
  next
    case False
    then have "token_at ((x @ [c]) @ redact_token_words s)"
      using "2.prems" by simp
    then have "token_at ((x @ [c]) @ s)"
      by (rule "2.IH"(2)[OF False])
    then show ?thesis by simp
  qed
qed

lemma token_stable_drop: "token_stable s \<Longrightarrow> token_stable (drop k s)"
proof (induction s arbitrary: k)
  case Nil
  then show ?case by simp
next
  case (Cons c s)
  then have "token_stable s" by (simp split: if_splits)
  then show ?case using Cons by (cases k) simp_all
qed

lemma token_stable_redact_token_words: "token_stable (redact_token_words s)"
proof (induction s rule: redact_token_words.induct)
  case 1
  show ?case by simp
next
  case (2 c s)
  show ?case
  proof (cases "token_at (c # s)")
    case True
    let ?r = "dropWhile token_char (drop 6 (c # s))"
    have ns: "\<not> starts token_char (redact_token_words ?r)"
      by (simp add: starts_redact_token_words not_starts_dropWhile)
    have "token_stable (''Token REDACTED'' @ redact_token_words ?r)"
      using "2.IH"(1)[OF True] ns
      by (simp add: token_at_def takeWhile_Nil)
    then show ?thesis using True by simp
  next
    case False
    have "\<not> token_at (c # redact_token_words s)"
      using token_at_redact_token_words[of "[c]" s] False by auto
    then show ?thesis using False "2.IH"(2)[OF False] by simp
  qed
qed

lemma redact_token_words_stable: "token_stable s \<Longrightarrow> redact_token_words s = s"
proof (induction s rule: redact_token_words.induct)
  case 1
  show ?case by simp
next
  case (2 c s)
  show ?case
  proof (cases "token_at (c # s)")
    case True
    let ?r = "dropWhile token_char (drop 6 (c # s))"
    from "2.prems" True have v: "takeWhile token_char (drop 6 (c # s)) = ''REDACTED''"
      by simp
    have "token_stable (drop 6 (c # s))"
      using "2.prems" by (rule token_stable_drop)
    then have "token_stable (drop (length (takeWhile token_char (drop 6 (c # s)))) (drop 6 (c # s)))"
      by (rule token_stable_drop)
    then have "token_stable ?r"
      by (simp only: dropWhile_eq_drop)
    then have r: "redact_token_words ?r = ?r"
      by (rule "2.IH"(1)[OF True])
    have "c # s = ''Token '' @ takeWhile token_char (drop 6 (c # s)) @ ?r"
      by (rule token_at_split[OF True])
    then have split: "c # s = ''Token '' @ ''REDACTED'' @ ?r"
      by (simp only: v)
    have "redact_token_words (c # s) = ''Token REDACTED'' @ redact_token_words ?r"
      using True by simp
    also have "\<dots> = ''Token '' @ ''REDACTED'' @ ?r"
      by (simp only: r) simp
    also have "\<dots> = c # s"
      by (rule split[symmetric])
    finally show ?thesis .
  next
    case False
    with "2.prems" have "token_stable s" by simp
    then show ?thesis using False "2.IH"(2)[OF False] by simp
  qed
qed


lemma skip1_append: "\<not> P y \<Longrightarrow> skip1 P (xs @ y # ys) = skip1 P xs @ y # ys"
  by (cases xs) simp_all

lemma after_separator_append:
  assumes "\<not> space_char y" and "y \<noteq> CHR ''=''" and "\<not> quote_char y"
  shows "after_separator (b @ y # w) = after_separator b @ y # w"
  unfolding after_separator_def
  using assms by (simp add: dropWhile_append3 skip1_append)

lemma token_char_not_separator:
  "token_char y \<Longrightarrow> \<not> space_char y \<and> y \<noteq> CHR ''='' \<and> \<not> quote_char y"
  using not_token_space not_token_quote not_token_eq by blast

lemma skip1_split: "\<exists>u. x = u @ skip1 P x \<and> (\<forall>c\<in>set u. P c)"
proof (cases "starts P x")
  case True
  then obtain c r where "x = c # r" "P c" by (cases x) auto
  then have "x = [c] @ skip1 P x \<and> (\<forall>c\<in>set [c]. P c)" by simp
  then show ?thesis by blast
next
  case False
  then have "x = [] @ skip1 P x \<and> (\<forall>c\<in>set []. P c)" by (simp add: skip1_id)
  then show ?thesis by blast
qed

lemma dropWhile_split: "\<exists>u. x = u @ dropWhile P x \<and> (\<forall>c\<in>set u. P c)"
proof -
  have "x = takeWhile P x @ dropWhile P x \<and> (\<forall>c\<in>set (takeWhile P x). P c)"
    by (auto dest: set_takeWhileD)
  then show ?thesis by blast
qed

lemma split_comp:
  assumes "\<exists>u. x = u @ y \<and> (\<forall>c\<in>set u. A c)" and "\<exists>u. y = u @ z \<and> (\<forall>c\<in>set u. B c)"
  shows "\<exists>u. x = u @ z \<and> (\<forall>c\<in>set u. A c \<or> B c)"
proof -
  from assms obtain u v where "x = u @ y" "\<forall>c\<in>set u. A c" "y = v @ z" "\<forall>c\<in>set v. B c"
    by blast
  then have "x = (u @ v) @ z \<and> (\<forall>c\<in>set (u @ v). A c \<or> B c)" by auto
  then show ?thesis by blast
qed

lemma after_separator_split:
  "\<exists>u. x = u @ after_separator x \<and> (\<forall>c\<in>set u. space_char c \<or> c = CHR ''='' \<or> quote_char c)"
proof -
  let ?x1 = "dropWhile space_char x"
  let ?x2 = "skip1 (\<lambda>c. c = CHR ''='') ?x1"
  let ?x3 = "dropWhile space_char ?x2"
  have 1: "\<exists>u. x = u @ ?x1 \<and> (\<forall>c\<in>set u. space_char c)"
    by (rule dropWhile_split)
  have 2: "\<exists>u. ?x1 = u @ ?x2 \<and> (\<forall>c\<in>set u. c = CHR ''='')"
    by (rule skip1_split)
  have 3: "\<exists>u. ?x2 = u @ ?x3 \<and> (\<forall>c\<in>set u. space_char c)"
    by (rule dropWhile_split)
  have 4: "\<exists>u. ?x3 = u @ after_separator x \<and> (\<forall>c\<in>set u. quote_char c)"
    unfolding after_separator_def by (rule skip1_split)
  from split_comp[OF split_comp[OF split_comp[OF 1 2] 3] 4]
  obtain u where "x = u @ after_separator x"
    "\<forall>c\<in>set u. ((space_char c \<or> c = CHR ''='') \<or> space_char c) \<or> quote_char c" by blast
  then have "x = u @ after_separator x \<and> (\<forall>c\<in>set u. space_char c \<or> c = CHR ''='' \<or> quote_char c)"
    by blast
  then show ?thesis by blast
qed

lemma flag_of_cases: "flag_of s = [] \<or> flag_of s = ''-t'' \<or> flag_of s = ''--token''"
  by (simp add: flag_of_def)

lemma flag_of_append: "flag_of a \<noteq> [] \<Longrightarrow> flag_of (a @ u) = flag_of a"
proof -
  assume f: "flag_of a \<noteq> []"
  from flag_of_length[OF f] have l: "length (flag_of a) \<le> length a" by simp
  from flag_of_cases[of a] f consider "flag_of a = ''-t''" | "flag_of a = ''--token''" by blast
  then show ?thesis
  proof cases
    case 1
    then have "2 \<le> length a" using l by simp
    moreover have "take 2 a = ''-t''" using 1 by (auto simp: flag_of_def split: if_splits)
    ultimately show ?thesis using 1 by (simp add: flag_of_def)
  next
    case 2
    then have "7 \<le> length a" using l by simp
    moreover have "take 2 a \<noteq> ''-t''" "take 7 a = ''--token''"
      using 2 by (auto simp: flag_of_def split: if_splits)
    ultimately show ?thesis using 2 by (simp add: flag_of_def)
  qed
qed

lemma take_append_other:
  assumes "c \<notin> set t"
  shows "take (length t) (a @ c # w) = t \<longleftrightarrow> take (length t) a = t"
proof (cases "length t \<le> length a")
  case True
  then show ?thesis by simp
next
  case False
  then have l: "length a < length t" by simp
  have "take (length t) a \<noteq> t"
  proof
    assume "take (length t) a = t"
    then have "length (take (length t) a) = length t" by simp
    then show False using l by simp
  qed
  moreover have "take (length t) (a @ c # w) \<noteq> t"
  proof
    assume e: "take (length t) (a @ c # w) = t"
    have "take (length t) (a @ c # w) ! length a = (a @ c # w) ! length a"
      using l by (rule nth_take)
    then have "t ! length a = c" using e by simp
    moreover have "t ! length a \<in> set t" using l by (rule nth_mem)
    ultimately show False using assms by simp
  qed
  ultimately show ?thesis by simp
qed

lemma flag_of_append_R: "flag_of (a @ CHR ''R'' # w) = flag_of a"
proof -
  have l2: "length ''-t'' = 2" and l7: "length ''--token'' = 7" by simp_all
  have n2: "CHR ''R'' \<notin> set ''-t''" and n7: "CHR ''R'' \<notin> set ''--token''" by simp_all
  have A: "take 2 (a @ CHR ''R'' # w) = ''-t'' \<longleftrightarrow> take 2 a = ''-t''"
    using take_append_other[OF n2, of a w] unfolding l2 .
  have B: "take 7 (a @ CHR ''R'' # w) = ''--token'' \<longleftrightarrow> take 7 a = ''--token''"
    using take_append_other[OF n7, of a w] unfolding l7 .
  show ?thesis unfolding flag_of_def A B ..
qed

lemma flag_at_append_R:
  assumes "flag_at (a @ CHR ''R'' # w')" and "token_char y"
  shows "flag_at (a @ y # w)"
proof -
  from assms(1) have f: "flag_of a \<noteq> []"
    by (simp add: flag_at_def flag_of_append_R)
  let ?n = "length (flag_of a)"
  have n: "?n \<le> length a" using flag_of_length[OF f] by simp
  have R: "after_separator (drop ?n a @ CHR ''R'' # w') = after_separator (drop ?n a) @ CHR ''R'' # w'"
    by (rule after_separator_append) (simp_all add: space_char_def quote_char_def)
  have Y: "after_separator (drop ?n a @ y # w) = after_separator (drop ?n a) @ y # w"
    using token_char_not_separator[OF assms(2)] by (intro after_separator_append) simp_all
  from assms(1) have "starts token_char (after_separator (drop ?n a) @ CHR ''R'' # w')"
    using n by (simp add: flag_at_def flag_of_append_R R)
  then have "starts token_char (after_separator (drop ?n a) @ y # w)"
    using assms(2) by (simp add: starts_append split: if_splits)
  then show ?thesis
    using f n by (simp add: flag_at_def flag_of_append Y)
qed


lemma flag_at_Cons: "flag_at (c # s) \<Longrightarrow> c = CHR ''-''"
  by (auto simp: flag_at_def flag_of_def split: if_splits)

lemma starts_redact_flag_values: "starts P (redact_flag_values s) = starts P s"
proof (cases s)
  case Nil
  then show ?thesis by simp
next
  case (Cons c r)
  show ?thesis
  proof (cases "flag_at (c # r)")
    case True
    then have f: "flag_of (c # r) \<noteq> []" by (simp add: flag_at_def)
    have "flag_of (c # r) = take (length (flag_of (c # r))) (c # r)"
      by (rule flag_of_take)
    then obtain k where "flag_of (c # r) = c # k"
      using f by (cases "length (flag_of (c # r))") auto
    then show ?thesis
      unfolding Cons using True kept_text[OF f] by (simp add: Let_def)
  next
    case False
    then show ?thesis unfolding Cons by simp
  qed
qed

lemma redact_flag_values_no_dash:
  "\<forall>c\<in>set u. c \<noteq> CHR ''-'' \<Longrightarrow> redact_flag_values (u @ w) = u @ redact_flag_values w"
proof (induction u)
  case Nil
  show ?case by simp
next
  case (Cons c u)
  then have "\<not> flag_at (c # u @ w)" using flag_at_Cons by fastforce
  then show ?case using Cons by simp
qed

text \<open>Where the second scan finds a flag, the text has the form flag, separator, value.\<close>

lemma flag_at_normal:
  assumes "flag_at t"
  shows "\<exists>S y w. t = flag_of t @ S @ y # w \<and> token_char y \<and> after_separator S = [] \<and>
           (\<forall>c\<in>set S. space_char c \<or> c = CHR ''='' \<or> quote_char c)"
proof -
  let ?x = "drop (length (flag_of t)) t"
  have t: "t = flag_of t @ ?x"
    using flag_of_take[of t] by (metis append_take_drop_id)
  obtain u where u: "?x = u @ after_separator ?x"
    and su: "\<forall>c\<in>set u. space_char c \<or> c = CHR ''='' \<or> quote_char c"
    using after_separator_split[of ?x] by blast
  from assms have "starts token_char (after_separator ?x)"
    by (simp add: flag_at_def)
  then obtain y w where v: "after_separator ?x = y # w" and y: "token_char y"
    by (cases "after_separator ?x") auto
  have "after_separator (u @ y # w) = after_separator u @ y # w"
    using token_char_not_separator[OF y] by (intro after_separator_append) simp_all
  then have "after_separator u @ y # w = y # w"
    using u v by simp
  then have "after_separator u = []" by simp
  moreover have "t = flag_of t @ u @ y # w"
    using t u v by simp
  ultimately show ?thesis using y su by blast
qed

lemma redact_flag_values_normal:
  assumes F: "F = ''-t'' \<or> F = ''--token''" and S: "after_separator S = []" and y: "token_char y"
  shows "redact_flag_values (F @ S @ y # w) =
     F @ S @ ''REDACTED''
     @ take (length (dropWhile token_char w) - length (skip1 quote_char (dropWhile token_char w)))
         (dropWhile token_char w)
     @ redact_flag_values (skip1 quote_char (dropWhile token_char w))"
proof -
  let ?t = "F @ S @ y # w"
  have f: "flag_of ?t = F"
    using F by (auto simp: flag_of_def)
  have d: "drop (length F) ?t = S @ y # w" by simp
  have v: "after_separator (S @ y # w) = y # w"
    using token_char_not_separator[OF y] S by (subst after_separator_append) simp_all
  have fa: "flag_at ?t"
    unfolding flag_at_def f d v using F y by auto
  have k: "take (length ?t - length (y # w)) ?t = F @ S"
    by simp
  obtain c s where cs: "?t = c # s" using F by (cases ?t) auto
  have "redact_flag_values (c # s) =
      (let v = after_separator (drop (length (flag_of (c # s))) (c # s));
           r = dropWhile token_char v;
           r' = skip1 quote_char r
       in take (length (c # s) - length v) (c # s) @ ''REDACTED''
          @ take (length r - length r') r @ redact_flag_values r')"
    using fa unfolding cs by simp
  then show ?thesis
    unfolding cs[symmetric] f d v Let_def k using y by simp
qed

lemma flag_at_redact_flag_values:
  "flag_at (x @ redact_flag_values s) \<Longrightarrow> flag_at (x @ s)"
proof (induction "length s" arbitrary: s x rule: less_induct)
  case less
  show ?case
  proof (cases s)
    case Nil
    with less.prems show ?thesis by simp
  next
    case (Cons c s')
    show ?thesis
    proof (cases "flag_at s")
      case True
      from flag_at_normal[OF True] obtain S y w where
        s: "s = flag_of s @ S @ y # w" and y: "token_char y" and S: "after_separator S = []"
        by blast
      have F: "flag_of s = ''-t'' \<or> flag_of s = ''--token''"
        using True flag_of_cases[of s] by (auto simp: flag_at_def)
      have "redact_flag_values s = redact_flag_values (flag_of s @ S @ y # w)"
        using s by simp
      then obtain w' where "redact_flag_values s = flag_of s @ S @ CHR ''R'' # w'"
        unfolding redact_flag_values_normal[OF F S y] by simp
      then have "flag_at ((x @ flag_of s @ S) @ CHR ''R'' # w')"
        using less.prems by simp
      then have "flag_at ((x @ flag_of s @ S) @ y # w)"
        using y by (rule flag_at_append_R)
      then show ?thesis using s by (metis append.assoc)
    next
      case False
      then have "flag_at ((x @ [c]) @ redact_flag_values s')"
        using less.prems Cons by simp
      then have "flag_at ((x @ [c]) @ s')"
        using less.hyps[of s' "x @ [c]"] Cons by simp
      then show ?thesis using Cons by simp
    qed
  qed
qed

lemma token_at_redact_flag_values:
  "token_at (x @ redact_flag_values s) \<Longrightarrow> token_at (x @ s)"
proof (induction "length s" arbitrary: s x rule: less_induct)
  case less
  show ?case
  proof (cases s)
    case Nil
    with less.prems show ?thesis by simp
  next
    case (Cons c s')
    show ?thesis
    proof (cases "flag_at s")
      case True
      then have c: "c = CHR ''-''" using Cons flag_at_Cons by blast
      have "starts (\<lambda>c. c = CHR ''-'') (redact_flag_values s) = starts (\<lambda>c. c = CHR ''-'') s"
        by (rule starts_redact_flag_values)
      also have "\<dots>" using c Cons by simp
      finally have "starts (\<lambda>c. c = CHR ''-'') (redact_flag_values s)" .
      then obtain w' where "redact_flag_values s = CHR ''-'' # w'"
        by (cases "redact_flag_values s") auto
      then have "token_at (x @ CHR ''-'' # w')" using less.prems by simp
      then have "token_at (x @ CHR ''-'' # s')" by (rule token_at_dash)
      then show ?thesis using c Cons by simp
    next
      case False
      then have "token_at ((x @ [c]) @ redact_flag_values s')"
        using less.prems Cons by simp
      then have "token_at ((x @ [c]) @ s')"
        using less.hyps[of s' "x @ [c]"] Cons by simp
      then show ?thesis using Cons by simp
    qed
  qed
qed


lemma closing_quote:
  "take (length r - length (skip1 P r)) r @ skip1 P r = r"
  "starts P r \<Longrightarrow> \<exists>q. P q \<and> take (length r - length (skip1 P r)) r = [q]"
  "\<not> starts P r \<Longrightarrow> take (length r - length (skip1 P r)) r = [] \<and> skip1 P r = r"
  by (cases r; simp)+

lemma redact_flag_values_idem:
  "redact_flag_values (redact_flag_values s) = redact_flag_values s"
proof (induction "length s" arbitrary: s rule: less_induct)
  case less
  show ?case
  proof (cases s)
    case Nil
    then show ?thesis by simp
  next
    case (Cons c s')
    show ?thesis
    proof (cases "flag_at s")
      case True
      define F where "F = flag_of s"
      from flag_at_normal[OF True] obtain S y w where
        s: "s = F @ S @ y # w" and y: "token_char y" and S: "after_separator S = []"
        unfolding F_def by blast
      have F: "F = ''-t'' \<or> F = ''--token''"
        unfolding F_def using True flag_of_cases[of s] by (auto simp: flag_at_def)
      let ?r = "dropWhile token_char w"
      let ?r' = "skip1 quote_char ?r"
      let ?Q = "take (length ?r - length ?r') ?r"
      let ?p = "redact_flag_values ?r'"
      have "length ?r' \<le> length w"
        by (meson length_skip1 length_dropWhile_le le_trans)
      then have "length ?r' < length s" unfolding s by simp
      then have IH: "redact_flag_values ?p = ?p" by (rule less.hyps)
      have E1: "redact_flag_values s = F @ S @ ''REDACTED'' @ ?Q @ ?p"
        unfolding s by (rule redact_flag_values_normal[OF F S y])
      have Q: "dropWhile token_char (''EDACTED'' @ ?Q @ ?p) = ?Q @ ?p
          \<and> skip1 quote_char (?Q @ ?p) = ?p"
      proof (cases "starts quote_char ?r")
        case True
        from closing_quote(2)[OF True] obtain q where q: "quote_char q" "?Q = [q]" by blast
        then show ?thesis using not_token_quote[OF q(1)] by simp
      next
        case False
        from closing_quote(3)[OF False] have e: "?Q = []" "?r' = ?r" by simp_all
        have "\<not> starts token_char ?p"
          unfolding e starts_redact_flag_values by (rule not_starts_dropWhile)
        moreover have "\<not> starts quote_char ?p"
          unfolding e starts_redact_flag_values by (rule False)
        ultimately show ?thesis
          unfolding e(1) by (simp add: dropWhile_id skip1_id)
      qed
      have "redact_flag_values (redact_flag_values s)
          = redact_flag_values (F @ S @ CHR ''R'' # (''EDACTED'' @ ?Q @ ?p))"
        unfolding E1 by simp
      also have "\<dots> = F @ S @ ''REDACTED'' @ ?Q @ redact_flag_values ?p"
        unfolding redact_flag_values_normal[OF F S token_char_REDACTED(1)] using Q by simp
      also have "\<dots> = F @ S @ ''REDACTED'' @ ?Q @ ?p"
        by (simp only: IH)
      also have "\<dots> = redact_flag_values s"
        by (rule E1[symmetric])
      finally show ?thesis .
    next
      case False
      have "\<not> flag_at (c # redact_flag_values s')"
        using flag_at_redact_flag_values[of "[c]" s'] False Cons by auto
      moreover have "redact_flag_values (redact_flag_values s') = redact_flag_values s'"
        using less.hyps[of s'] Cons by simp
      ultimately show ?thesis using False Cons by simp
    qed
  qed
qed

lemma token_stable_append: "token_stable (u @ z) \<Longrightarrow> token_stable z"
  using token_stable_drop[of "u @ z" "length u"] by simp

lemma token_stable_no_T:
  "\<forall>c\<in>set u. c \<noteq> CHR ''T'' \<Longrightarrow> token_stable (u @ z) = token_stable z"
proof (induction u)
  case Nil
  show ?case by simp
next
  case (Cons c u)
  then have "\<not> token_at (c # u @ z)" using token_at_Cons by fastforce
  then show ?case using Cons by simp
qed

lemma token_stable_REDACTED: "token_stable (''REDACTED'' @ z) = token_stable z"
  by (simp add: token_at_def)

lemma token_stable_redact_flag_values:
  "token_stable s \<Longrightarrow> token_stable (redact_flag_values s)"
proof (induction "length s" arbitrary: s rule: less_induct)
  case less
  show ?case
  proof (cases s)
    case Nil
    then show ?thesis by simp
  next
    case (Cons c s')
    show ?thesis
    proof (cases "flag_at s")
      case True
      define F where "F = flag_of s"
      from flag_at_normal[OF True] obtain S y w where
        s: "s = F @ S @ y # w" and y: "token_char y" and S: "after_separator S = []"
        and sep: "\<forall>c\<in>set S. space_char c \<or> c = CHR ''='' \<or> quote_char c"
        unfolding F_def by blast
      have F: "F = ''-t'' \<or> F = ''--token''"
        unfolding F_def using True flag_of_cases[of s] by (auto simp: flag_at_def)
      let ?r = "dropWhile token_char w"
      let ?r' = "skip1 quote_char ?r"
      let ?Q = "take (length ?r - length ?r') ?r"
      let ?p = "redact_flag_values ?r'"
      have "length ?r' \<le> length w"
        by (meson length_skip1 length_dropWhile_le le_trans)
      then have len: "length ?r' < length s" unfolding s by simp
      have "w = takeWhile token_char w @ ?Q @ ?r'"
        using closing_quote(1)[of ?r quote_char] by simp
      then have "s = (F @ S @ [y] @ takeWhile token_char w @ ?Q) @ ?r'"
        unfolding s by simp
      then have "token_stable ((F @ S @ [y] @ takeWhile token_char w @ ?Q) @ ?r')"
        using less.prems by simp
      then have "token_stable ?r'"
        by (rule token_stable_append)
      then have p: "token_stable ?p"
        using less.hyps[OF len] by simp
      have "redact_flag_values s = F @ S @ ''REDACTED'' @ ?Q @ ?p"
        unfolding s by (rule redact_flag_values_normal[OF F S y])
      then have E1: "redact_flag_values s = (F @ S) @ ''REDACTED'' @ ?Q @ ?p"
        by simp
      have nF: "\<forall>c\<in>set F. c \<noteq> CHR ''T''"
        using F by auto
      have T: "\<not> (space_char CHR ''T'' \<or> CHR ''T'' = CHR ''='' \<or> quote_char CHR ''T'')"
        by (simp add: space_char_def quote_char_def)
      have nS: "\<forall>c\<in>set S. c \<noteq> CHR ''T''"
        using sep T by blast
      have nT1: "\<forall>c\<in>set (F @ S). c \<noteq> CHR ''T''"
        using nF nS by (simp add: ball_Un)
      have nT2: "\<forall>c\<in>set ?Q. c \<noteq> CHR ''T''"
      proof (cases "starts quote_char ?r")
        case True
        from closing_quote(2)[OF True] obtain q where "quote_char q" "?Q = [q]" by blast
        then show ?thesis by (auto simp: quote_char_def)
      next
        case False
        from closing_quote(3)[OF False] show ?thesis by simp
      qed
      show ?thesis
        unfolding E1 token_stable_no_T[OF nT1] token_stable_REDACTED token_stable_no_T[OF nT2]
        by (rule p)
    next
      case False
      from less.prems Cons have st: "token_stable s'" by (simp split: if_splits)
      then have p: "token_stable (redact_flag_values s')"
        using less.hyps[of s'] Cons by simp
      have "takeWhile token_char (drop 6 (c # redact_flag_values s')) = ''REDACTED''"
        if t: "token_at (c # redact_flag_values s')"
      proof -
        have ta: "token_at s"
          using token_at_redact_flag_values[of "[c]" s'] t Cons by simp
        then have v: "takeWhile token_char (drop 6 s) = ''REDACTED''"
          using less.prems Cons by simp
        define r0 where "r0 = dropWhile token_char (drop 6 s)"
        have "s = ''Token '' @ takeWhile token_char (drop 6 s) @ dropWhile token_char (drop 6 s)"
          by (rule token_at_split[OF ta])
        then have "s = ''Token '' @ ''REDACTED'' @ r0"
          by (simp only: v r0_def)
        then have s': "s' = ''oken REDACTED'' @ r0"
          using Cons by simp
        have "redact_flag_values (''oken REDACTED'' @ r0) = ''oken REDACTED'' @ redact_flag_values r0"
          by (rule redact_flag_values_no_dash) simp
        then have e: "redact_flag_values s' = ''oken REDACTED'' @ redact_flag_values r0"
          unfolding s' .
        have "\<not> starts token_char (redact_flag_values r0)"
          unfolding starts_redact_flag_values r0_def by (rule not_starts_dropWhile)
        then show ?thesis
          unfolding e by (simp add: takeWhile_Nil)
      qed
      then show ?thesis using False Cons p by simp
    qed
  qed
qed

lemma FilterToken_idem: "FilterToken (FilterToken s) = FilterToken s"
proof -
  have "token_stable (redact_flag_values (redact_token_words s))"
    by (intro token_stable_redact_flag_values token_stable_redact_token_words)
  then have "redact_token_words (redact_flag_values (redact_token_words s))
      = redact_flag_values (redact_token_words s)"
    by (rule redact_token_words_stable)
  then show ?thesis
    unfolding FilterToken_eq_scans by (simp only: redact_flag_values_idem)
qed


section \<open>Redaction: the function and its reference definition\<close>

lemma FilterToken_examples:
  "FilterToken ''Token abc-123'' = ''Token REDACTED''"
  "FilterToken ''--token=\"abc_123\"'' = ''--token=\"REDACTED\"''"
  "FilterToken ''-t abc_123'' = ''-t REDACTED''"
  "FilterToken ''fastly service describe'' = ''fastly service describe''"
  by (simp_all add: FilterToken_eq_scans token_at_def flag_at_def flag_of_def after_separator_def
      Let_def space_char_def quote_char_def token_char_def word_char_def less_eq_char_def)

text \<open>
  C5, as stated: the function equals the two-pass reference in which the first pass
  rewrites every occurrence of \<open>Token\<close> followed by whitespace and a token-shaped value,
  and the second every occurrence of a flag with a value.  The expression of the code has
  one space character after \<open>Token\<close>, not whitespace: with a tab between \<open>Token\<close> and the
  value the function leaves the text as it is, and the reference rewrites it.  Nor is every
  occurrence rewritten: an occurrence that begins inside the text of an earlier one is
  passed over.  In \<open>Token Token abc-123\<close> the pattern stands at offset 0 and again at
  offset 6; the first occurrence takes the second \<open>Token\<close> for its value, and \<open>abc-123\<close>
  stays.  In \<open>-t -t s3cret\<close> the flag pattern stands at offset 0 and at offset 3, and
  \<open>s3cret\<close> stays.
\<close>

theorem FilterToken_whitespace_counterexample:
  "FilterToken (''Token'' @ [CHR 0x09] @ ''abc'') = ''Token'' @ [CHR 0x09] @ ''abc'' \<and>
   redact_spec (''Token'' @ [CHR 0x09] @ ''abc'') = ''Token REDACTED'' \<and>
   token_at ''Token Token abc-123'' \<and> token_at (drop 6 ''Token Token abc-123'') \<and>
   FilterToken ''Token Token abc-123'' = ''Token REDACTED abc-123'' \<and>
   flag_at ''-t -t s3cret'' \<and> flag_at (drop 3 ''-t -t s3cret'') \<and>
   FilterToken ''-t -t s3cret'' = ''-t REDACTED s3cret''"
proof -
  have 1: "FilterToken (''Token'' @ [CHR 0x09] @ ''abc'') = ''Token'' @ [CHR 0x09] @ ''abc'' \<and>
      redact_spec (''Token'' @ [CHR 0x09] @ ''abc'') = ''Token REDACTED''"
    by (simp add: FilterToken_eq_scans redact_spec_def token_at_def token_ws_at_def flag_at_def
        flag_of_def after_separator_def Let_def space_char_def quote_char_def token_char_def
        word_char_def less_eq_char_def)
  have 2: "token_at ''Token Token abc-123'' \<and> token_at (drop 6 ''Token Token abc-123'')"
    by (simp add: token_at_def starts_def token_char_def word_char_def less_eq_char_def)
  have 3: "FilterToken ''Token Token abc-123'' = ''Token REDACTED abc-123''"
    by (simp add: FilterToken_eq_scans token_at_def flag_at_def starts_def skip1_def
        flag_of_def after_separator_def Let_def space_char_def quote_char_def token_char_def
        word_char_def less_eq_char_def)
  have 4: "flag_at ''-t -t s3cret'' \<and> flag_at (drop 3 ''-t -t s3cret'')"
    by (simp add: flag_at_def flag_of_def after_separator_def starts_def skip1_def
        space_char_def quote_char_def token_char_def word_char_def less_eq_char_def)
  have 5: "FilterToken ''-t -t s3cret'' = ''-t REDACTED s3cret''"
    by (simp add: FilterToken_eq_scans token_at_def flag_at_def starts_def skip1_def
        flag_of_def after_separator_def Let_def space_char_def quote_char_def token_char_def
        word_char_def less_eq_char_def)
  show ?thesis
    using 1 2 3 4 5 by blast
qed

text \<open>
  C5, amended: for every input the function equals the two-pass reference
  \<open>redact_reference\<close>, each pass of which is one scan from left to right that rewrites the
  leftmost occurrence of its pattern, goes on behind the text of that occurrence and copies
  everything else, so that an occurrence beginning inside the text of an earlier one is not
  rewritten.  The first pass rewrites \<open>Token\<close>, exactly one space character and a
  token-shaped value to \<open>Token REDACTED\<close>; the second replaces the value after a \<open>-t\<close> or
  \<open>--token\<close> flag, keeping the flag, the separator and the quotes.  An input in which
  neither expression matches anywhere is returned unchanged.
\<close>

theorem FilterToken_is_reference:
  "FilterToken s = redact_reference s \<and>
   (find_first TokenRegEx s = None \<and> find_first TokenFlagRegEx s = None \<longrightarrow> FilterToken s = s)"
proof -
  have "FilterToken s = s"
    if "find_first TokenRegEx s = None" "find_first TokenFlagRegEx s = None"
    unfolding FilterToken_def ReplaceAllString_def Let_def
    by (subst replace_all.simps[of TokenRegEx], simp only: that option.case,
        subst replace_all.simps, simp only: that option.case)
  then show ?thesis
    by (simp add: FilterToken_eq_scans redact_reference_def)
qed

theorem FilterToken_is_reference_witness:
  "find_first TokenRegEx ''no secret'' = None \<and>
   find_first TokenFlagRegEx ''no secret'' = None \<and>
   FilterToken ''no secret'' = ''no secret''"
proof -
  have 1: "find_first TokenRegEx ''no secret'' = None"
    by (simp add: matches_TokenRegEx token_at_def)
  have 2: "find_first TokenFlagRegEx ''no secret'' = None"
    by (simp add: matches_TokenFlagRegEx flag_of_def)
  show ?thesis
    using 1 2 FilterToken_is_reference[of "''no secret''"] by blast
qed

section \<open>Redaction is idempotent\<close>

text \<open>
  C6.  Applying the function to its own result changes nothing: the first scan leaves
  alone every text in which each \<open>Token\<close> value is already \<open>REDACTED\<close>, the second scan
  keeps that property, and the second scan leaves its own results alone.
\<close>

theorem FilterToken_idempotent: "FilterToken (FilterToken s) = FilterToken s"
  by (rule FilterToken_idem)


end
